theory Spec2Isabelle
  imports Main
begin

section \<open>Shared conventions\<close>

text \<open>
  The three engines are TypeScript classes that mutate their own fields. Each command is
  modelled as a function from the state before the call to the state after it (together
  with the returned value). JavaScript numbers that hold counters, scores and tile values
  are modelled as unbounded \<open>nat\<close>/\<open>int\<close>; coordinates that the caller supplies are \<open>int\<close>.
  Reading a property of \<open>undefined\<close> throws a \<open>TypeError\<close> in JavaScript; such reads are
  branches of the model that return the error. \<open>Math.random()\<close> and \<open>Date.now()\<close> are
  parameters of the functions that call them.
\<close>

datatype error = TypeError

section \<open>Block-Stack: data model (tetris/types.ts)\<close>

datatype PieceType = Piece_I | Piece_O | Piece_T | Piece_S | Piece_Z | Piece_J | Piece_L

datatype TetrisStatus = T_idle | T_playing | T_paused | T_lost

record Position =
  pos_x :: int
  pos_y :: int

record TetrisPiece =
  ptype :: PieceType
  position :: Position
  rotation :: nat
  shape :: "nat list list"

text \<open>A board cell is \<open>None\<close> for JavaScript's \<open>null\<close> (empty) and \<open>Some t\<close> for a placed cell.\<close>

type_synonym TetrisBoard = "PieceType option list list"

record TetrisState =
  t_status :: TetrisStatus
  t_board :: TetrisBoard
  currentPiece :: "TetrisPiece option"
  nextPiece :: "TetrisPiece option"
  t_score :: nat
  t_level :: nat
  t_lines :: nat
  t_startTime :: "nat option"
  t_endTime :: "nat option"
  dropSpeed :: nat
  lastDropTime :: nat
  canPause :: bool

fun PIECE_SHAPES :: "PieceType \<Rightarrow> nat list list list" where
  "PIECE_SHAPES Piece_I =
     [[[0,0,0,0],[1,1,1,1],[0,0,0,0],[0,0,0,0]],
      [[0,0,1,0],[0,0,1,0],[0,0,1,0],[0,0,1,0]]]"
| "PIECE_SHAPES Piece_O = [[[1,1],[1,1]]]"
| "PIECE_SHAPES Piece_T =
     [[[0,1,0],[1,1,1],[0,0,0]],
      [[0,1,0],[0,1,1],[0,1,0]],
      [[0,0,0],[1,1,1],[0,1,0]],
      [[0,1,0],[1,1,0],[0,1,0]]]"
| "PIECE_SHAPES Piece_S =
     [[[0,1,1],[1,1,0],[0,0,0]],
      [[0,1,0],[0,1,1],[0,0,1]]]"
| "PIECE_SHAPES Piece_Z =
     [[[1,1,0],[0,1,1],[0,0,0]],
      [[0,0,1],[0,1,1],[0,1,0]]]"
| "PIECE_SHAPES Piece_J =
     [[[1,0,0],[1,1,1],[0,0,0]],
      [[0,1,1],[0,1,0],[0,1,0]],
      [[0,0,0],[1,1,1],[0,0,1]],
      [[0,1,0],[0,1,0],[1,1,0]]]"
| "PIECE_SHAPES Piece_L =
     [[[0,0,1],[1,1,1],[0,0,0]],
      [[0,1,0],[0,1,0],[0,1,1]],
      [[0,0,0],[1,1,1],[1,0,0]],
      [[1,1,0],[0,1,0],[0,1,0]]]"

section \<open>Block-Stack: state functions (tetris/state.ts)\<close>

text \<open>
  \<open>board[boardY][boardX]\<close> for coordinates already checked against \<open>board.length\<close> and
  \<open>board[0].length\<close>: the outer \<open>None\<close> is JavaScript's \<open>undefined\<close> (a row shorter than
  row 0), which is \<open>!== null\<close>.
\<close>

definition board_read :: "TetrisBoard \<Rightarrow> int \<Rightarrow> int \<Rightarrow> PieceType option option" where
  "board_read board boardY boardX =
     (if 0 \<le> boardY \<and> nat boardY < length board \<and> 0 \<le> boardX
         \<and> nat boardX < length (board ! nat boardY)
      then Some (board ! nat boardY ! nat boardX) else None)"

text \<open>
  The inner loop of \<open>canPlacePiece\<close> over the columns of one shape row. \<open>Inr False\<close> is the
  early \<open>return false\<close>; \<open>Inl TypeError\<close> is \<open>board[0].length\<close> on a board without rows.
\<close>

fun canPlace_cols :: "TetrisBoard \<Rightarrow> Position \<Rightarrow> nat \<Rightarrow> nat list \<Rightarrow> nat \<Rightarrow> error + bool" where
  "canPlace_cols board pos row [] col = Inr True"
| "canPlace_cols board pos row (v # vs) col =
     (if v = 1 then
        (let boardX = pos_x pos + int col; boardY = pos_y pos + int row in
         if boardX < 0 then Inr False
         else if board = [] then Inl TypeError
         else if boardX \<ge> int (length (board ! 0)) \<or> boardY < 0 \<or> boardY \<ge> int (length board)
           then Inr False
         else if board_read board boardY boardX \<noteq> Some None then Inr False
         else canPlace_cols board pos row vs (Suc col))
      else canPlace_cols board pos row vs (Suc col))"

fun canPlace_rows :: "TetrisBoard \<Rightarrow> Position \<Rightarrow> nat list list \<Rightarrow> nat \<Rightarrow> error + bool" where
  "canPlace_rows board pos [] row = Inr True"
| "canPlace_rows board pos (r # rs) row =
     (case canPlace_cols board pos row r 0 of
        Inl e \<Rightarrow> Inl e
      | Inr False \<Rightarrow> Inr False
      | Inr True \<Rightarrow> canPlace_rows board pos rs (Suc row))"

definition canPlacePiece :: "TetrisBoard \<Rightarrow> TetrisPiece \<Rightarrow> Position \<Rightarrow> error + bool" where
  "canPlacePiece board piece pos = canPlace_rows board pos (shape piece) 0"

text \<open>\<open>rotatePiece\<close> of state.ts: the next entry of the piece type's rotation table.\<close>

definition rotatePiece :: "TetrisPiece \<Rightarrow> TetrisPiece" where
  "rotatePiece piece =
     (let shapes = PIECE_SHAPES (ptype piece);
          nextRotation = (rotation piece + 1) mod length shapes
      in piece\<lparr>rotation := nextRotation, shape := shapes ! nextRotation\<rparr>)"

text \<open>
  \<open>clearCompleteLines\<close>: the scan from the bottom row to the top one (\<open>k\<close> is \<open>row + 1\<close>),
  \<open>unshift\<close> as consing in front, then the loop that pads the top.
\<close>

definition isComplete :: "PieceType option list \<Rightarrow> bool" where
  "isComplete r = list_all (\<lambda>cell. cell \<noteq> None) r"

fun clear_scan :: "TetrisBoard \<Rightarrow> nat \<Rightarrow> TetrisBoard \<Rightarrow> nat \<Rightarrow> TetrisBoard \<times> nat" where
  "clear_scan board 0 newBoard clearedLines = (newBoard, clearedLines)"
| "clear_scan board (Suc row) newBoard clearedLines =
     (if isComplete (board ! row)
      then clear_scan board row newBoard (clearedLines + 1)
      else clear_scan board row ((board ! row) # newBoard) clearedLines)"

function pad_top :: "TetrisBoard \<Rightarrow> TetrisBoard \<Rightarrow> TetrisBoard" where
  "pad_top board newBoard =
     (if length newBoard < length board
      then pad_top board (replicate (length (board ! 0)) None # newBoard)
      else newBoard)"
  by pat_completeness auto
termination
  by (relation "measure (\<lambda>(board, newBoard). length board - length newBoard)") auto

declare pad_top.simps [simp del]

definition clearCompleteLines :: "TetrisBoard \<Rightarrow> TetrisBoard \<times> nat" where
  "clearCompleteLines board =
     (let (newBoard, clearedLines) = clear_scan board (length board) [] 0
      in (pad_top board newBoard, clearedLines))"

section \<open>Block-Stack: the engine's rotate command (tetris/game.ts)\<close>

definition kickOffsets :: "Position list" where
  "kickOffsets =
     [\<lparr>pos_x = -1, pos_y = 0\<rparr>, \<lparr>pos_x = 1, pos_y = 0\<rparr>, \<lparr>pos_x = 0, pos_y = -1\<rparr>,
      \<lparr>pos_x = -1, pos_y = -1\<rparr>, \<lparr>pos_x = 1, pos_y = -1\<rparr>]"

definition kicked :: "Position \<Rightarrow> Position \<Rightarrow> Position" where
  "kicked p offset = \<lparr>pos_x = pos_x p + pos_x offset, pos_y = pos_y p + pos_y offset\<rparr>"

fun try_kicks :: "TetrisState \<Rightarrow> TetrisPiece \<Rightarrow> Position list \<Rightarrow> error + TetrisState" where
  "try_kicks s rotatedPiece [] = Inr s"
| "try_kicks s rotatedPiece (offset # rest) =
     (let kickedPosition = kicked (position rotatedPiece) offset in
      case canPlacePiece (t_board s) rotatedPiece kickedPosition of
        Inl e \<Rightarrow> Inl e
      | Inr True \<Rightarrow> Inr (s\<lparr>currentPiece := Some (rotatedPiece\<lparr>position := kickedPosition\<rparr>)\<rparr>)
      | Inr False \<Rightarrow> try_kicks s rotatedPiece rest)"

definition engine_rotatePiece :: "TetrisState \<Rightarrow> error + TetrisState" where
  "engine_rotatePiece s =
     (case currentPiece s of
        None \<Rightarrow> Inr s
      | Some piece \<Rightarrow>
          (let rotatedPiece = rotatePiece piece in
           case canPlacePiece (t_board s) rotatedPiece (position rotatedPiece) of
             Inl e \<Rightarrow> Inl e
           | Inr True \<Rightarrow> Inr (s\<lparr>currentPiece := Some rotatedPiece\<rparr>)
           | Inr False \<Rightarrow> try_kicks s rotatedPiece kickOffsets))"

text \<open>\<open>handleInput("rotate")\<close>: the guard of \<open>handleInput\<close>, then the rotate branch.\<close>

definition handleInput_rotate :: "TetrisState \<Rightarrow> error + TetrisState" where
  "handleInput_rotate s =
     (if t_status s \<noteq> T_playing \<or> currentPiece s = None then Inr s
      else engine_rotatePiece s)"

text \<open>
  The collision predicate in the words of the specification: every filled cell of the
  shape matrix maps to an in-bounds, currently empty board cell. It is compared with
  \<open>canPlacePiece\<close> on rectangular boards.
\<close>

definition rectangular :: "TetrisBoard \<Rightarrow> bool" where
  "rectangular board = (board \<noteq> [] \<and> list_all (\<lambda>r. length r = length (hd board)) board)"

text \<open>One filled shape cell at an in-bounds, empty board cell.\<close>

definition cell_ok :: "TetrisBoard \<Rightarrow> Position \<Rightarrow> nat \<Rightarrow> nat \<Rightarrow> bool" where
  "cell_ok board pos row col =
     (0 \<le> pos_x pos + int col \<and> pos_x pos + int col < int (length (hd board)) \<and>
      0 \<le> pos_y pos + int row \<and> pos_y pos + int row < int (length board) \<and>
      board ! nat (pos_y pos + int row) ! nat (pos_x pos + int col) = None)"

definition spec_fits :: "TetrisBoard \<Rightarrow> nat list list \<Rightarrow> Position \<Rightarrow> bool" where
  "spec_fits board sh pos =
     list_all (\<lambda>row. list_all (\<lambda>col. sh ! row ! col = 1 \<longrightarrow> cell_ok board pos row col)
       [0..<length (sh ! row)]) [0..<length sh]"

definition spec_candidates :: "Position \<Rightarrow> Position list" where
  "spec_candidates p =
     [p, \<lparr>pos_x = pos_x p - 1, pos_y = pos_y p\<rparr>, \<lparr>pos_x = pos_x p + 1, pos_y = pos_y p\<rparr>,
      \<lparr>pos_x = pos_x p, pos_y = pos_y p - 1\<rparr>, \<lparr>pos_x = pos_x p - 1, pos_y = pos_y p - 1\<rparr>,
      \<lparr>pos_x = pos_x p + 1, pos_y = pos_y p - 1\<rparr>]"

text \<open>
  The next rotation state in the words of the specification: every piece type has a fixed
  table of rotation states (two for I, S and Z, one for O, four for T, J and L); the next
  state of a piece is the table entry after its rotation index, the first entry after the
  last one. The type and the anchor position of the piece stay.
\<close>

fun rotation_states :: "PieceType \<Rightarrow> nat" where
  "rotation_states Piece_I = 2"
| "rotation_states Piece_O = 1"
| "rotation_states Piece_T = 4"
| "rotation_states Piece_S = 2"
| "rotation_states Piece_Z = 2"
| "rotation_states Piece_J = 4"
| "rotation_states Piece_L = 4"

definition next_index :: "PieceType \<Rightarrow> nat \<Rightarrow> nat" where
  "next_index t r = (r + 1) mod rotation_states t"

definition next_rotation_state :: "TetrisPiece \<Rightarrow> TetrisPiece" where
  "next_rotation_state piece =
     \<lparr>ptype = ptype piece, position = position piece,
      rotation = next_index (ptype piece) (rotation piece),
      shape = PIECE_SHAPES (ptype piece) ! next_index (ptype piece) (rotation piece)\<rparr>"

text \<open>
  The rotate command in the words of the specification: the next rotation state, placed at
  the first candidate position that satisfies the collision predicate; the state unchanged
  when there is none.
\<close>

definition spec_rotate :: "TetrisState \<Rightarrow> TetrisPiece \<Rightarrow> TetrisState" where
  "spec_rotate s piece =
     (let rotated = next_rotation_state piece in
      case find (spec_fits (t_board s) (shape rotated)) (spec_candidates (position piece)) of
        None \<Rightarrow> s
      | Some p \<Rightarrow> s\<lparr>currentPiece := Some (rotated\<lparr>position := p\<rparr>)\<rparr>)"

text \<open>The row that \<open>clearCompleteLines\<close> pads with: as wide as row 0, all \<open>null\<close>.\<close>

definition emptyRow :: "TetrisBoard \<Rightarrow> PieceType option list" where
  "emptyRow board = replicate (length (hd board)) None"


text \<open>
  A playing state for the wall-kick scenario: an empty board 5 wide and 4 high, the
  vertical I piece in the rightmost column (its matrix at x = 2).
\<close>

definition kick_example :: TetrisState where
  "kick_example =
     \<lparr>t_status = T_playing, t_board = replicate 4 (replicate 5 None),
      currentPiece = Some \<lparr>ptype = Piece_I, position = \<lparr>pos_x = 2, pos_y = 0\<rparr>, rotation = 1,
                            shape = PIECE_SHAPES Piece_I ! 1\<rparr>,
      nextPiece = None, t_score = 0, t_level = 1, t_lines = 0, t_startTime = Some 0,
      t_endTime = None, dropSpeed = 1000, lastDropTime = 0, canPause = True\<rparr>"

text \<open>
  A second wall-kick scenario with a piece of four rotation states: a board 5 wide and 4
  high with a placed cell at row 0, column 2; the T piece in rotation state 2 with its
  matrix at x = 1, y = 0 (its cells are (1,1), (1,2), (1,3) and (2,2)).
\<close>

definition kick_example_T :: TetrisState where
  "kick_example_T =
     \<lparr>t_status = T_playing,
      t_board = [[None, None, Some Piece_O, None, None], replicate 5 None, replicate 5 None,
                 replicate 5 None],
      currentPiece = Some \<lparr>ptype = Piece_T, position = \<lparr>pos_x = 1, pos_y = 0\<rparr>, rotation = 2,
                            shape = PIECE_SHAPES Piece_T ! 2\<rparr>,
      nextPiece = None, t_score = 0, t_level = 1, t_lines = 0, t_startTime = Some 0,
      t_endTime = None, dropSpeed = 1000, lastDropTime = 0, canPause = True\<rparr>"

text \<open>A board of height 20 whose rows 18 and 19 are complete.\<close>

definition clear_example :: TetrisBoard where
  "clear_example =
     replicate 18 [None, Some Piece_T] @ [[Some Piece_I, Some Piece_I], [Some Piece_O, Some Piece_L]]"
section \<open>Tile-Merge: data model (game2048/types.ts)\<close>

datatype GameStatus = G_idle | G_playing | G_won | G_lost

datatype Direction = Dir_up | Dir_down | Dir_left | Dir_right

text \<open>
  A cell of the 2048 board. The optional flags \<open>isNew\<close> and \<open>isMerged\<close> are only ever set
  to \<open>true\<close> or deleted by the code, so an absent flag is \<open>False\<close>.
\<close>

record Cell2048 =
  cvalue :: nat
  c_row :: nat
  c_col :: nat
  isNew :: bool
  isMerged :: bool

type_synonym Board2048 = "Cell2048 list list"

record Game2048State =
  g_status :: GameStatus
  g_board :: Board2048
  g_score :: nat
  bestScore :: nat
  g_startTime :: "nat option"
  g_endTime :: "nat option"
  canUndo :: bool
  moveCount :: nat
  highestTile :: nat
  bestTile :: nat

record GameHistoryState =
  h_board :: Board2048
  h_score :: nat
  h_moveCount :: nat

record MoveResult =
  moved :: bool
  scoreIncrease :: nat
  reached2048 :: bool

record GameConfig2048 =
  boardSize :: nat
  winTarget :: nat
  initialCells :: nat

definition DEFAULT_CONFIG :: GameConfig2048 where
  "DEFAULT_CONFIG = \<lparr>boardSize = 4, winTarget = 2048, initialCells = 2\<rparr>"

text \<open>
  The fields of \<open>Game2048StateManager\<close>. The listeners are left out: they receive copies of
  the state and return nothing to the manager.
\<close>

record Manager2048 =
  m_state :: Game2048State
  m_config :: GameConfig2048
  m_history :: "GameHistoryState list"

section \<open>Tile-Merge: the state manager (game2048/state.ts)\<close>

subsection \<open>mergeLine\<close>

text \<open>
  The merging loop \<open>for (i = 0; i < newLine.length - 1; i++)\<close> with its two in-place
  writes, then the padding loop \<open>while (result.length < line.length) result.push(0)\<close>.
\<close>

function merge_scan :: "nat \<Rightarrow> nat list \<Rightarrow> nat \<Rightarrow> nat list \<times> nat" where
  "merge_scan i newLine score =
     (if i + 1 < length newLine then
        (if newLine ! i = newLine ! (i + 1) then
           (let l1 = newLine[i := newLine ! i * 2];
                score' = score + l1 ! i;
                l2 = l1[i + 1 := 0]
            in merge_scan (i + 1) l2 score')
         else merge_scan (i + 1) newLine score)
      else (newLine, score))"
  by pat_completeness auto
termination
  by (relation "measure (\<lambda>(i, newLine, score). length newLine - i)") auto

declare merge_scan.simps [simp del]

function pad_zeros :: "nat \<Rightarrow> nat list \<Rightarrow> nat list" where
  "pad_zeros n result = (if length result < n then pad_zeros n (result @ [0]) else result)"
  by pat_completeness auto
termination
  by (relation "measure (\<lambda>(n, result). n - length result)") auto

declare pad_zeros.simps [simp del]

definition mergeLine :: "nat list \<Rightarrow> nat list \<times> nat" where
  "mergeLine line =
     (let filtered = filter (\<lambda>v. v \<noteq> 0) line;
          (newLine, score) = merge_scan 0 filtered 0;
          result = filter (\<lambda>v. v \<noteq> 0) newLine
      in (pad_zeros (length line) result, score))"

text \<open>
  The line transform in the words of the specification: on the line without zeros, each
  element merges with its immediate right neighbour when they are equal and neither was
  merged in this pass; the merged values add up to the score; the result is padded with
  zeros to the original length.
\<close>

fun spec_merge :: "nat list \<Rightarrow> nat list \<times> nat" where
  "spec_merge (a # b # rest) =
     (if a = b then (let (r, s) = spec_merge rest in ((a + b) # r, (a + b) + s))
      else (let (r, s) = spec_merge (b # rest) in (a # r, s)))"
| "spec_merge xs = (xs, 0)"

definition spec_mergeLine :: "nat list \<Rightarrow> nat list \<times> nat" where
  "spec_mergeLine line =
     (let (r, s) = spec_merge (filter (\<lambda>v. v \<noteq> 0) line)
      in (r @ replicate (length line - length r) 0, s))"

subsection \<open>Board access\<close>

text \<open>\<open>board[row][col] = f(board[row][col])\<close>, an in-place write to one cell.\<close>

definition upd_cell :: "Board2048 \<Rightarrow> nat \<Rightarrow> nat \<Rightarrow> (Cell2048 \<Rightarrow> Cell2048) \<Rightarrow> Board2048" where
  "upd_cell board row col f = board[row := (board ! row)[col := f (board ! row ! col)]]"

definition cell_val :: "Board2048 \<Rightarrow> nat \<Rightarrow> nat \<Rightarrow> nat" where
  "cell_val board row col = cvalue (board ! row ! col)"

definition createEmptyBoard :: "nat \<Rightarrow> Board2048" where
  "createEmptyBoard sz =
     map (\<lambda>row. map (\<lambda>col. \<lparr>cvalue = 0, c_row = row, c_col = col, isNew = False, isMerged = False\<rparr>)
                   [0..<sz]) [0..<sz]"

definition getEmptyCells :: "nat \<Rightarrow> Board2048 \<Rightarrow> (nat \<times> nat) list" where
  "getEmptyCells sz board =
     concat (map (\<lambda>row. map (\<lambda>col. (row, col))
                          (filter (\<lambda>col. cell_val board row col = 0) [0..<sz])) [0..<sz])"

text \<open>
  \<open>addRandomCell\<close>. The two calls of \<open>Math.random()\<close> are the pair \<open>rnd\<close>:
  \<open>Math.floor(Math.random() * n)\<close> is some index below \<open>n\<close>, here \<open>fst rnd mod n\<close>, and
  \<open>snd rnd\<close> tells whether the second draw was below 0.9.
\<close>

definition addRandomCell :: "nat \<Rightarrow> nat \<times> bool \<Rightarrow> Board2048 \<Rightarrow> bool \<times> Board2048" where
  "addRandomCell sz rnd board =
     (let emptyCells = getEmptyCells sz board in
      if emptyCells = [] then (False, board)
      else
        (let (row, col) = emptyCells ! (fst rnd mod length emptyCells);
             v = (if snd rnd then 2 else 4)
         in (True, upd_cell board row col
               (\<lambda>_. \<lparr>cvalue = v, c_row = row, c_col = col, isNew = True, isMerged = False\<rparr>))))"

definition clearCellFlags :: "nat \<Rightarrow> Board2048 \<Rightarrow> Board2048" where
  "clearCellFlags sz board =
     fold (\<lambda>row b. fold (\<lambda>col b. upd_cell b row col (\<lambda>c. c\<lparr>isNew := False, isMerged := False\<rparr>))
                        [0..<sz] b) [0..<sz] board"

definition boardsEqual :: "nat \<Rightarrow> Board2048 \<Rightarrow> Board2048 \<Rightarrow> bool" where
  "boardsEqual sz board1 board2 =
     list_all (\<lambda>row. list_all (\<lambda>col. cell_val board1 row col = cell_val board2 row col) [0..<sz])
       [0..<sz]"

subsection \<open>The four directions\<close>

text \<open>
  \<open>write_line board cells newLine\<close> is the loop that stores \<open>newLine[k]\<close> into the value of
  the \<open>k\<close>-th cell of \<open>cells\<close>: the cells of a row from left to right (moveLeft, moveRight),
  of a column from top to bottom (moveUp) or from bottom to top (moveDown).
\<close>

definition write_line :: "Board2048 \<Rightarrow> (nat \<times> nat) list \<Rightarrow> nat list \<Rightarrow> Board2048" where
  "write_line board cells newLine =
     fold (\<lambda>k b. upd_cell b (fst (cells ! k)) (snd (cells ! k)) (\<lambda>c. c\<lparr>cvalue := newLine ! k\<rparr>))
       [0..<length cells] board"

definition row_cells :: "nat \<Rightarrow> nat \<Rightarrow> (nat \<times> nat) list" where
  "row_cells sz row = map (\<lambda>col. (row, col)) [0..<sz]"

definition col_cells :: "nat \<Rightarrow> nat \<Rightarrow> (nat \<times> nat) list" where
  "col_cells sz col = map (\<lambda>row. (row, col)) [0..<sz]"

text \<open>The values along a list of cells.\<close>

definition line_vals :: "Board2048 \<Rightarrow> (nat \<times> nat) list \<Rightarrow> nat list" where
  "line_vals board cells = map (\<lambda>p. cell_val board (fst p) (snd p)) cells"

definition moveLeft_row :: "nat \<Rightarrow> nat \<Rightarrow> Board2048 \<times> nat \<Rightarrow> Board2048 \<times> nat" where
  "moveLeft_row sz row acc =
     (let board = fst acc;
          line = map cvalue (board ! row);
          (newLine, score) = mergeLine line
      in (write_line board (row_cells sz row) newLine, snd acc + score))"

definition moveLeft :: "nat \<Rightarrow> Board2048 \<Rightarrow> Board2048 \<times> nat" where
  "moveLeft sz board = fold (moveLeft_row sz) [0..<sz] (board, 0)"

definition moveRight_row :: "nat \<Rightarrow> nat \<Rightarrow> Board2048 \<times> nat \<Rightarrow> Board2048 \<times> nat" where
  "moveRight_row sz row acc =
     (let board = fst acc;
          line = rev (map cvalue (board ! row));
          (newLine, score) = mergeLine line;
          reversedLine = rev newLine
      in (write_line board (row_cells sz row) reversedLine, snd acc + score))"

definition moveRight :: "nat \<Rightarrow> Board2048 \<Rightarrow> Board2048 \<times> nat" where
  "moveRight sz board = fold (moveRight_row sz) [0..<sz] (board, 0)"

definition moveUp_col :: "nat \<Rightarrow> nat \<Rightarrow> Board2048 \<times> nat \<Rightarrow> Board2048 \<times> nat" where
  "moveUp_col sz col acc =
     (let board = fst acc;
          line = map (\<lambda>row. cell_val board row col) [0..<sz];
          (newLine, score) = mergeLine line
      in (write_line board (col_cells sz col) newLine, snd acc + score))"

definition moveUp :: "nat \<Rightarrow> Board2048 \<Rightarrow> Board2048 \<times> nat" where
  "moveUp sz board = fold (moveUp_col sz) [0..<sz] (board, 0)"

definition moveDown_col :: "nat \<Rightarrow> nat \<Rightarrow> Board2048 \<times> nat \<Rightarrow> Board2048 \<times> nat" where
  "moveDown_col sz col acc =
     (let board = fst acc;
          line = map (\<lambda>row. cell_val board row col) (rev [0..<sz]);
          (newLine, score) = mergeLine line
      in (write_line board (map (\<lambda>row. (sz - 1 - row, col)) [0..<sz]) newLine,
          snd acc + score))"

definition moveDown :: "nat \<Rightarrow> Board2048 \<Rightarrow> Board2048 \<times> nat" where
  "moveDown sz board = fold (moveDown_col sz) [0..<sz] (board, 0)"

fun move_direction :: "Direction \<Rightarrow> nat \<Rightarrow> Board2048 \<Rightarrow> Board2048 \<times> nat" where
  "move_direction Dir_left sz board = moveLeft sz board"
| "move_direction Dir_right sz board = moveRight sz board"
| "move_direction Dir_up sz board = moveUp sz board"
| "move_direction Dir_down sz board = moveDown sz board"

subsection \<open>Status checks\<close>

definition updateHighestTile :: "nat \<Rightarrow> Board2048 \<Rightarrow> nat" where
  "updateHighestTile sz board =
     fold (\<lambda>row h. fold (\<lambda>col h. if cell_val board row col > h then cell_val board row col else h)
                        [0..<sz] h) [0..<sz] 0"

definition checkFor2048 :: "GameConfig2048 \<Rightarrow> Board2048 \<Rightarrow> bool" where
  "checkFor2048 cfg board =
     list_ex (\<lambda>row. list_ex (\<lambda>col. cell_val board row col \<ge> winTarget cfg) [0..<boardSize cfg])
       [0..<boardSize cfg]"

definition canMove :: "nat \<Rightarrow> Board2048 \<Rightarrow> bool" where
  "canMove sz board =
     (getEmptyCells sz board \<noteq> [] \<or>
      list_ex (\<lambda>row. list_ex (\<lambda>col.
          (col + 1 < sz \<and> cell_val board row col = cell_val board row (col + 1)) \<or>
          (row + 1 < sz \<and> cell_val board row col = cell_val board (row + 1) col))
        [0..<sz]) [0..<sz])"

definition checkGameStatus :: "GameConfig2048 \<Rightarrow> nat \<Rightarrow> Game2048State \<Rightarrow> Game2048State" where
  "checkGameStatus cfg now s =
     (if checkFor2048 cfg (g_board s) \<and> g_status s = G_playing
      then s\<lparr>g_status := G_won, g_endTime := Some now\<rparr>
      else if \<not> canMove (boardSize cfg) (g_board s)
      then s\<lparr>g_status := G_lost, g_endTime := Some now\<rparr>
      else s)"

subsection \<open>History, move, undo\<close>

text \<open>
  \<open>cloneBoard\<close> copies every row and every cell, so a history entry shares nothing with the
  board that later moves write to: in the model the copy is the board value itself.
\<close>

definition saveToHistory :: "Manager2048 \<Rightarrow> Manager2048" where
  "saveToHistory m =
     (let historyState = \<lparr>h_board = g_board (m_state m), h_score = g_score (m_state m),
                           h_moveCount = moveCount (m_state m)\<rparr>;
          pushed = m_history m @ [historyState]
      in m\<lparr>m_history := (if length pushed > 10 then tl pushed else pushed)\<rparr>)"

text \<open>
  \<open>move(direction)\<close>; \<open>rnd\<close> are the draws of \<open>addRandomCell\<close> and \<open>now\<close> is \<open>Date.now()\<close>.
  The writes to \<open>localStorage\<close> (saveBestScore, saveBestTile) are outside the manager's
  state and are left out.
\<close>

definition move :: "Direction \<Rightarrow> nat \<times> bool \<Rightarrow> nat \<Rightarrow> Manager2048 \<Rightarrow> MoveResult \<times> Manager2048" where
  "move direction rnd now m =
     (if g_status (m_state m) \<noteq> G_playing
      then (\<lparr>moved = False, scoreIncrease = 0, reached2048 = False\<rparr>, m)
      else
        (let m1 = saveToHistory m;
             cfg = m_config m;
             sz = boardSize cfg;
             oldBoard = g_board (m_state m1);
             cleared = clearCellFlags sz (g_board (m_state m1));
             (newBoard, increase) = move_direction direction sz cleared;
             changed = (\<not> boardsEqual sz oldBoard newBoard)
         in if changed then
              (let s1 = (m_state m1)\<lparr>g_board := newBoard,
                                      g_score := g_score (m_state m1) + increase,
                                      moveCount := moveCount (m_state m1) + 1,
                                      canUndo := True\<rparr>;
                   reached = checkFor2048 cfg (g_board s1);
                   s2 = s1\<lparr>highestTile := updateHighestTile sz (g_board s1)\<rparr>;
                   s3 = s2\<lparr>g_board := snd (addRandomCell sz rnd (g_board s2))\<rparr>;
                   s4 = checkGameStatus cfg now s3;
                   s5 = (if g_score s4 > bestScore s4 then s4\<lparr>bestScore := g_score s4\<rparr> else s4);
                   s6 = (if highestTile s5 > bestTile s5 then s5\<lparr>bestTile := highestTile s5\<rparr>
                         else s5)
               in (\<lparr>moved = True, scoreIncrease = increase, reached2048 = reached\<rparr>,
                   m1\<lparr>m_state := s6\<rparr>))
            else
              (\<lparr>moved = False, scoreIncrease = increase, reached2048 = False\<rparr>,
               m1\<lparr>m_state := (m_state m1)\<lparr>g_board := newBoard\<rparr>,
                  m_history := butlast (m_history m1)\<rparr>)))"

text \<open>Whether a move in direction \<open>d\<close> changes a cell value: the test \<open>!boardsEqual(oldBoard, board)\<close>
  of \<open>move\<close>, on the board of \<open>m\<close>.\<close>

definition move_changed :: "Direction \<Rightarrow> Manager2048 \<Rightarrow> bool" where
  "move_changed d m =
     (\<not> boardsEqual (boardSize (m_config m)) (g_board (m_state m))
          (fst (move_direction d (boardSize (m_config m))
                 (clearCellFlags (boardSize (m_config m)) (g_board (m_state m))))))"

definition undo :: "Manager2048 \<Rightarrow> bool \<times> Manager2048" where
  "undo m =
     (if \<not> canUndo (m_state m) \<or> m_history m = [] then (False, m)
      else
        (let lastState = last (m_history m);
             popped = butlast (m_history m)
         in (True,
             m\<lparr>m_history := popped,
               m_state := (m_state m)\<lparr>g_board := h_board lastState,
                                       g_score := h_score lastState,
                                       moveCount := h_moveCount lastState,
                                       canUndo := (popped \<noteq> [])\<rparr>\<rparr>)))"

text \<open>
  \<open>createInitialState\<close> reads the best score and best tile from \<open>localStorage\<close>: they are the
  parameters \<open>storedScore\<close> and \<open>storedTile\<close>.
\<close>

definition createInitialState :: "GameConfig2048 \<Rightarrow> nat \<Rightarrow> nat \<Rightarrow> Game2048State" where
  "createInitialState cfg storedScore storedTile =
     \<lparr>g_status = G_idle, g_board = createEmptyBoard (boardSize cfg), g_score = 0,
      bestScore = storedScore, g_startTime = None, g_endTime = None, canUndo = False,
      moveCount = 0, highestTile = 0, bestTile = storedTile\<rparr>"

definition newManager :: "GameConfig2048 \<Rightarrow> nat \<Rightarrow> nat \<Rightarrow> Manager2048" where
  "newManager cfg storedScore storedTile =
     \<lparr>m_state = createInitialState cfg storedScore storedTile, m_config = cfg, m_history = []\<rparr>"

text \<open>\<open>startNewGame\<close> (also \<open>reset\<close>); \<open>rnd i\<close> are the draws of the \<open>i\<close>-th initial cell.\<close>

definition startNewGame :: "nat \<Rightarrow> nat \<Rightarrow> (nat \<Rightarrow> nat \<times> bool) \<Rightarrow> nat \<Rightarrow> Manager2048 \<Rightarrow> Manager2048" where
  "startNewGame storedScore storedTile rnd now m =
     (let cfg = m_config m;
          s0 = createInitialState cfg storedScore storedTile;
          board = fold (\<lambda>i b. snd (addRandomCell (boardSize cfg) (rnd i) b))
                    [0..<initialCells cfg] (g_board s0);
          s1 = s0\<lparr>g_board := board, highestTile := updateHighestTile (boardSize cfg) board,
                  g_status := G_playing, g_startTime := Some now\<rparr>
      in m\<lparr>m_state := s1, m_history := []\<rparr>)"

text \<open>\<open>Game2048Engine.continueGame\<close> (game2048/game.ts) writes the manager's status.\<close>

definition continueGame :: "Manager2048 \<Rightarrow> Manager2048" where
  "continueGame m =
     (if g_status (m_state m) = G_won then m\<lparr>m_state := (m_state m)\<lparr>g_status := G_playing\<rparr>\<rparr>
      else m)"

text \<open>The states a game can be in: a new game, then any sequence of commands.\<close>

inductive reachable :: "Manager2048 \<Rightarrow> bool" where
  reach_start: "reachable (startNewGame storedScore storedTile rnd now (newManager cfg s0 t0))"
| reach_restart: "reachable m \<Longrightarrow> reachable (startNewGame storedScore storedTile rnd now m)"
| reach_move: "reachable m \<Longrightarrow> reachable (snd (move direction r now m))"
| reach_undo: "reachable m \<Longrightarrow> reachable (snd (undo m))"
| reach_continue: "reachable m \<Longrightarrow> reachable (continueGame m)"

text \<open>The board has \<open>sz\<close> rows of \<open>sz\<close> cells, as \<open>createEmptyBoard\<close> builds it.\<close>

definition square :: "nat \<Rightarrow> Board2048 \<Rightarrow> bool" where
  "square sz board = (length board = sz \<and> list_all (\<lambda>r. length r = sz) board)"


text \<open>A board given by its cell values, with the row and column indices filled in.\<close>

definition board_of :: "nat list list \<Rightarrow> Board2048" where
  "board_of vs =
     map (\<lambda>(r, vals). map (\<lambda>(c, v). \<lparr>cvalue = v, c_row = r, c_col = c, isNew = False,
                                         isMerged = False\<rparr>) (enumerate 0 vals))
       (enumerate 0 vs)"

text \<open>The board whose first row is [2,2,4,0], for the literal scenario of the merge rule.\<close>

definition row_example :: Board2048 where
  "row_example = board_of [[2, 2, 4, 0], [0, 0, 0, 0], [0, 0, 0, 0], [0, 0, 0, 0]]"

text \<open>
  The invariant of the cell values: a value is 0 or a power of two that is at least 2. It
  is stated for the board and for every board kept in the history, on boards of the
  configured size.
\<close>

definition tile_ok :: "nat \<Rightarrow> bool" where
  "tile_ok v = (v = 0 \<or> (\<exists>k. 0 < k \<and> v = 2 ^ k))"

definition board_ok :: "nat \<Rightarrow> Board2048 \<Rightarrow> bool" where
  "board_ok sz board = (square sz board \<and> (\<forall>r<sz. \<forall>c<sz. tile_ok (cell_val board r c)))"

definition manager_ok :: "Manager2048 \<Rightarrow> bool" where
  "manager_ok m =
     (board_ok (boardSize (m_config m)) (g_board (m_state m)) \<and>
      (\<forall>h\<in>set (m_history m). board_ok (boardSize (m_config m)) (h_board h)))"

text \<open>
  Example games. \<open>game_start\<close> is a new game on the default configuration whose two
  initial cells are 2s in the first two cells of the top row; \<open>plays\<close> makes moves with
  every new cell a 2 in the first empty cell; \<open>game_ten\<close> is the game after ten accepted
  moves. \<open>small_lost\<close> is a lost game on a 2 by 2 board: [[2,4],[0,0]], moved down and
  then right.
\<close>

definition game_start :: Manager2048 where
  "game_start = startNewGame 0 0 (\<lambda>i. (0, True)) 0 (newManager DEFAULT_CONFIG 0 0)"

definition plays :: "Direction list \<Rightarrow> Manager2048 \<Rightarrow> Manager2048" where
  "plays ds m = fold (\<lambda>d m. snd (move d (0, True) 1 m)) ds m"

definition game_ten :: Manager2048 where
  "game_ten = plays [Dir_left, Dir_right, Dir_left, Dir_right, Dir_left, Dir_right, Dir_down,
                     Dir_right, Dir_right, Dir_left] game_start"

definition small_config :: GameConfig2048 where
  "small_config = \<lparr>boardSize = 2, winTarget = 2048, initialCells = 2\<rparr>"

definition small_start :: Manager2048 where
  "small_start = startNewGame 0 0 (\<lambda>i. (0, i = 0)) 0 (newManager small_config 0 0)"

definition small_lost :: Manager2048 where
  "small_lost = snd (move Dir_right (0, False) 2 (snd (move Dir_down (0, True) 1 small_start)))"
section \<open>Minefield: data model (minesweeper/types.ts)\<close>

datatype Difficulty = Beginner | Intermediate | Expert | Custom

datatype MineStatus = M_idle | M_playing | M_won | M_lost

datatype CellState = Hidden | Revealed | Flagged | Questioned

record MineCell =
  isMine :: bool
  neighborMines :: nat
  cstate :: CellState
  mc_row :: nat
  mc_col :: nat

type_synonym MineBoard = "MineCell list list"

text \<open>
  \<open>rows\<close> and \<open>cols\<close> are the board dimensions; \<open>mines\<close> is kept an integer because the
  clamp of \<open>setCustomConfig\<close> does not keep it positive for every input.
\<close>

record MineConfig =
  rows :: nat
  cols :: nat
  mines :: int
  difficulty :: Difficulty

record MinesweeperState =
  ms_status :: MineStatus
  ms_board :: MineBoard
  ms_config :: MineConfig
  remainingMines :: int
  flaggedMines :: int
  revealedCells :: nat
  ms_startTime :: "nat option"
  ms_endTime :: "nat option"
  ms_score :: int

definition DIFFICULTY_beginner :: MineConfig where
  "DIFFICULTY_beginner = \<lparr>rows = 9, cols = 9, mines = 10, difficulty = Beginner\<rparr>"

definition DIFFICULTY_intermediate :: MineConfig where
  "DIFFICULTY_intermediate = \<lparr>rows = 16, cols = 16, mines = 40, difficulty = Intermediate\<rparr>"

definition DIFFICULTY_expert :: MineConfig where
  "DIFFICULTY_expert = \<lparr>rows = 16, cols = 30, mines = 99, difficulty = Expert\<rparr>"

section \<open>Minefield: the state manager (minesweeper/state.ts)\<close>

subsection \<open>Board access\<close>

text \<open>
  \<open>board[row][col]\<close> for coordinates the caller supplies: \<open>None\<close> when \<open>board[row]\<close> or the
  cell is \<open>undefined\<close>. Reading a property of such a cell throws a TypeError.
\<close>

definition board_cell :: "MineBoard \<Rightarrow> int \<Rightarrow> int \<Rightarrow> MineCell option" where
  "board_cell board row col =
     (if 0 \<le> row \<and> nat row < length board \<and> 0 \<le> col \<and> nat col < length (board ! nat row)
      then Some (board ! nat row ! nat col) else None)"

text \<open>An in-place write to the cell object \<open>board[row][col]\<close>.\<close>

definition upd_mine_cell :: "MineBoard \<Rightarrow> int \<Rightarrow> int \<Rightarrow> (MineCell \<Rightarrow> MineCell) \<Rightarrow> MineBoard" where
  "upd_mine_cell board row col f =
     board[nat row := (board ! nat row)[nat col := f (board ! nat row ! nat col)]]"

definition createMineBoard :: "nat \<Rightarrow> nat \<Rightarrow> MineBoard" where
  "createMineBoard rs cs =
     map (\<lambda>row. map (\<lambda>col. \<lparr>isMine = False, neighborMines = 0, cstate = Hidden,
                              mc_row = row, mc_col = col\<rparr>) [0..<cs]) [0..<rs]"

definition createMineState :: "MineConfig \<Rightarrow> MinesweeperState" where
  "createMineState config =
     \<lparr>ms_status = M_idle, ms_board = createMineBoard (rows config) (cols config),
      ms_config = config, remainingMines = mines config, flaggedMines = 0, revealedCells = 0,
      ms_startTime = None, ms_endTime = None, ms_score = 0\<rparr>"

text \<open>The board has the dimensions of the configuration, as \<open>createInitialState\<close> builds it.\<close>

definition mine_board_wf :: "nat \<Rightarrow> nat \<Rightarrow> MineBoard \<Rightarrow> bool" where
  "mine_board_wf rs cs board = (length board = rs \<and> list_all (\<lambda>r. length r = cs) board)"

definition ms_wf :: "MinesweeperState \<Rightarrow> bool" where
  "ms_wf s = mine_board_wf (rows (ms_config s)) (cols (ms_config s)) (ms_board s)"

definition in_board :: "nat \<Rightarrow> nat \<Rightarrow> int \<times> int \<Rightarrow> bool" where
  "in_board rs cs p = (0 \<le> fst p \<and> fst p < int rs \<and> 0 \<le> snd p \<and> snd p < int cs)"

text \<open>All cell coordinates of a \<open>rs\<close> by \<open>cs\<close> board, row by row.\<close>

definition all_cells :: "nat \<Rightarrow> nat \<Rightarrow> (int \<times> int) list" where
  "all_cells rs cs = concat (map (\<lambda>row. map (\<lambda>col. (int row, int col)) [0..<cs]) [0..<rs])"

subsection \<open>Mine placement\<close>

text \<open>
  \<open>shuffleArray\<close>: the loop \<open>for (i = length - 1; i > 0; i--)\<close> that swaps positions \<open>i\<close> and
  \<open>j = Math.floor(Math.random() * (i + 1))\<close>; the draw of step \<open>i\<close> is \<open>rnd i mod (i + 1)\<close>.
\<close>

fun shuffle_loop :: "(nat \<Rightarrow> nat) \<Rightarrow> nat \<Rightarrow> 'a list \<Rightarrow> 'a list" where
  "shuffle_loop rnd 0 shuffled = shuffled"
| "shuffle_loop rnd (Suc k) shuffled =
     (let i = Suc k; j = rnd i mod (i + 1)
      in shuffle_loop rnd k (shuffled[i := shuffled ! j, j := shuffled ! i]))"

definition shuffleArray :: "(nat \<Rightarrow> nat) \<Rightarrow> 'a list \<Rightarrow> 'a list" where
  "shuffleArray rnd array = shuffle_loop rnd (length array - 1) array"

text \<open>\<open>array.slice(0, end)\<close>: a negative \<open>end\<close> counts from the end of the array.\<close>

definition slice0 :: "'a list \<Rightarrow> int \<Rightarrow> 'a list" where
  "slice0 array end = (if end < 0 then take (nat (int (length array) + end)) array
                       else take (nat end) array)"

definition isExcluded :: "int \<Rightarrow> int \<Rightarrow> int \<times> int \<Rightarrow> bool" where
  "isExcluded excludeRow excludeCol p =
     (\<bar>fst p - excludeRow\<bar> \<le> 1 \<and> \<bar>snd p - excludeCol\<bar> \<le> 1)"

definition availableCells :: "MineConfig \<Rightarrow> int \<Rightarrow> int \<Rightarrow> (int \<times> int) list" where
  "availableCells config excludeRow excludeCol =
     filter (\<lambda>p. \<not> isExcluded excludeRow excludeCol p) (all_cells (rows config) (cols config))"

definition placeMines :: "(nat \<Rightarrow> nat) \<Rightarrow> int \<Rightarrow> int \<Rightarrow> MinesweeperState \<Rightarrow> MinesweeperState" where
  "placeMines rnd excludeRow excludeCol s =
     (let minePositions =
            slice0 (shuffleArray rnd (availableCells (ms_config s) excludeRow excludeCol))
              (mines (ms_config s))
      in s\<lparr>ms_board := fold (\<lambda>p b. upd_mine_cell b (fst p) (snd p) (\<lambda>c. c\<lparr>isMine := True\<rparr>))
                          minePositions (ms_board s)\<rparr>)"

text \<open>
  The neighbours that the loops of \<open>countNeighborMines\<close> and \<open>revealNeighbors\<close> visit, in
  their order: \<open>r\<close> from \<open>max(0, row - 1)\<close> to \<open>min(rows - 1, row + 1)\<close>, \<open>c\<close> likewise,
  without the cell itself.
\<close>

definition neighbor_coords :: "MineConfig \<Rightarrow> int \<Rightarrow> int \<Rightarrow> (int \<times> int) list" where
  "neighbor_coords config row col =
     concat (map (\<lambda>r. map (\<lambda>c. (r, c))
                          (filter (\<lambda>c. r \<noteq> row \<or> c \<noteq> col)
                             [max 0 (col - 1) .. min (int (cols config) - 1) (col + 1)]))
               [max 0 (row - 1) .. min (int (rows config) - 1) (row + 1)])"

definition is_mine_at :: "MineBoard \<Rightarrow> int \<times> int \<Rightarrow> bool" where
  "is_mine_at board p = (case board_cell board (fst p) (snd p) of
                           None \<Rightarrow> False | Some c \<Rightarrow> isMine c)"

text \<open>The number of cells of a \<open>rs\<close> by \<open>cs\<close> board that hold a mine.\<close>

definition mine_count :: "nat \<Rightarrow> nat \<Rightarrow> MineBoard \<Rightarrow> nat" where
  "mine_count rs cs board = length (filter (is_mine_at board) (all_cells rs cs))"

definition countNeighborMines :: "MinesweeperState \<Rightarrow> int \<Rightarrow> int \<Rightarrow> nat" where
  "countNeighborMines s row col =
     length (filter (is_mine_at (ms_board s)) (neighbor_coords (ms_config s) row col))"

definition calculateNeighborMines :: "MinesweeperState \<Rightarrow> MinesweeperState" where
  "calculateNeighborMines s =
     fold (\<lambda>p s'. if \<not> is_mine_at (ms_board s') p
                   then s'\<lparr>ms_board := upd_mine_cell (ms_board s') (fst p) (snd p)
                              (\<lambda>c. c\<lparr>neighborMines := countNeighborMines s' (fst p) (snd p)\<rparr>)\<rparr>
                   else s')
       (all_cells (rows (ms_config s)) (cols (ms_config s))) s"

definition initializeGame :: "(nat \<Rightarrow> nat) \<Rightarrow> nat \<Rightarrow> int \<Rightarrow> int \<Rightarrow> MinesweeperState \<Rightarrow> MinesweeperState" where
  "initializeGame rnd now firstClickRow firstClickCol s =
     (if ms_status s \<noteq> M_idle then s
      else (calculateNeighborMines (placeMines rnd firstClickRow firstClickCol s))
             \<lparr>ms_status := M_playing, ms_startTime := Some now\<rparr>)"

subsection \<open>Revealing\<close>

definition revealAllMines :: "MinesweeperState \<Rightarrow> MinesweeperState" where
  "revealAllMines s =
     s\<lparr>ms_board := map (map (\<lambda>cell. if isMine cell \<and> cstate cell \<noteq> Flagged
                                     then cell\<lparr>cstate := Revealed\<rparr> else cell)) (ms_board s)\<rparr>"

definition getDifficultyMultiplier :: "MinesweeperState \<Rightarrow> int" where
  "getDifficultyMultiplier s =
     (case difficulty (ms_config s) of
        Beginner \<Rightarrow> 1 | Intermediate \<Rightarrow> 2 | Expert \<Rightarrow> 3 | Custom \<Rightarrow> 1)"

text \<open>A timestamp is falsy when it is \<open>null\<close> or 0.\<close>

definition falsy_time :: "nat option \<Rightarrow> bool" where
  "falsy_time t = (t = None \<or> t = Some 0)"

definition calculateScore :: "MinesweeperState \<Rightarrow> MinesweeperState" where
  "calculateScore s =
     (if falsy_time (ms_startTime s) \<or> falsy_time (ms_endTime s) then s
      else
        (let timeBonus = max 0 (1000 - (int (the (ms_endTime s)) - int (the (ms_startTime s))) div 1000)
         in s\<lparr>ms_score := (timeBonus + mines (ms_config s) * 10) * getDifficultyMultiplier s\<rparr>))"

definition totalSafeCells :: "MinesweeperState \<Rightarrow> int" where
  "totalSafeCells s = int (rows (ms_config s) * cols (ms_config s)) - mines (ms_config s)"

definition checkWinCondition :: "nat \<Rightarrow> MinesweeperState \<Rightarrow> MinesweeperState" where
  "checkWinCondition now s =
     (if int (revealedCells s) = totalSafeCells s
      then calculateScore (s\<lparr>ms_status := M_won, ms_endTime := Some now\<rparr>)
      else s)"

text \<open>
  \<open>revealCell\<close> and \<open>revealNeighbors\<close> call each other. The first argument bounds the depth
  of the calls: \<open>None\<close> means the bound was reached. A result \<open>Some (Inl TypeError, s)\<close> is
  a thrown TypeError, with the state as the throw leaves it; \<open>Some (Inr b, s)\<close> is the
  return of \<open>b\<close>. \<open>rnd\<close> are the draws of the shuffle, used by the first reveal; all calls
  of \<open>Date.now()\<close> within one command are the one value \<open>now\<close>.

  The variable \<open>cell\<close> of \<open>revealCell\<close> is the cell object of the board, which
  \<open>initializeGame\<close> writes to: \<open>cell.isMine\<close> and \<open>cell.neighborMines\<close> are read from the
  board after the initialisation.
\<close>

function (sequential) revealCell ::
    "nat \<Rightarrow> (nat \<Rightarrow> nat) \<Rightarrow> nat \<Rightarrow> int \<Rightarrow> int \<Rightarrow> MinesweeperState
      \<Rightarrow> ((error + bool) \<times> MinesweeperState) option"
  and revealNeighbors ::
    "nat \<Rightarrow> (nat \<Rightarrow> nat) \<Rightarrow> nat \<Rightarrow> (int \<times> int) list \<Rightarrow> MinesweeperState
      \<Rightarrow> (error option \<times> MinesweeperState) option"
where
  "revealCell 0 rnd now row col s = None"
| "revealCell (Suc fuel) rnd now row col s =
     (if ms_status s = M_won \<or> ms_status s = M_lost then Some (Inr False, s)
      else
        (case board_cell (ms_board s) row col of
           None \<Rightarrow> Some (Inl TypeError, s)
         | Some cell0 \<Rightarrow>
             if cstate cell0 \<noteq> Hidden then Some (Inr False, s)
             else
               (let s1 = (if ms_status s = M_idle then initializeGame rnd now row col s else s);
                    s2 = s1\<lparr>ms_board := upd_mine_cell (ms_board s1) row col
                                           (\<lambda>c. c\<lparr>cstate := Revealed\<rparr>),
                            revealedCells := revealedCells s1 + 1\<rparr>;
                    cell = ms_board s2 ! nat row ! nat col
                in if isMine cell
                   then Some (Inr True,
                              revealAllMines (s2\<lparr>ms_status := M_lost, ms_endTime := Some now\<rparr>))
                   else if neighborMines cell = 0
                   then (case revealNeighbors fuel rnd now
                                (neighbor_coords (ms_config s2) row col) s2 of
                           None \<Rightarrow> None
                         | Some (Some e, s3) \<Rightarrow> Some (Inl e, s3)
                         | Some (None, s3) \<Rightarrow> Some (Inr True, checkWinCondition now s3))
                   else Some (Inr True, checkWinCondition now s2))))"
| "revealNeighbors fuel rnd now [] s = Some (None, s)"
| "revealNeighbors fuel rnd now (p # rest) s =
     (case board_cell (ms_board s) (fst p) (snd p) of
        None \<Rightarrow> Some (Some TypeError, s)
      | Some neighbor \<Rightarrow>
          if cstate neighbor = Hidden
          then (case revealCell fuel rnd now (fst p) (snd p) s of
                  None \<Rightarrow> None
                | Some (Inl e, s') \<Rightarrow> Some (Some e, s')
                | Some (Inr b, s') \<Rightarrow> revealNeighbors fuel rnd now rest s')
          else revealNeighbors fuel rnd now rest s)"
  by pat_completeness auto
termination
  by (relation "inv_image (less_than <*lex*> less_than)
        (\<lambda>x. case x of Inl (fuel, rnd, now, row, col, s) \<Rightarrow> (fuel, 0)
                 | Inr (fuel, rnd, now, ps, s) \<Rightarrow> (fuel, Suc (length ps)))") auto

definition toggleFlag :: "int \<Rightarrow> int \<Rightarrow> MinesweeperState \<Rightarrow> (error + bool) \<times> MinesweeperState" where
  "toggleFlag row col s =
     (if ms_status s = M_won \<or> ms_status s = M_lost then (Inr False, s)
      else
        (case board_cell (ms_board s) row col of
           None \<Rightarrow> (Inl TypeError, s)
         | Some cell \<Rightarrow>
             if cstate cell = Revealed then (Inr False, s)
             else if cstate cell = Hidden
             then (Inr True,
                   s\<lparr>ms_board := upd_mine_cell (ms_board s) row col (\<lambda>c. c\<lparr>cstate := Flagged\<rparr>),
                     flaggedMines := flaggedMines s + 1,
                     remainingMines := remainingMines s - 1\<rparr>)
             else if cstate cell = Flagged
             then (Inr True,
                   s\<lparr>ms_board := upd_mine_cell (ms_board s) row col (\<lambda>c. c\<lparr>cstate := Hidden\<rparr>),
                     flaggedMines := flaggedMines s - 1,
                     remainingMines := remainingMines s + 1\<rparr>)
             else (Inr True, s)))"

subsection \<open>The engine (minesweeper/game.ts)\<close>

text \<open>
  \<open>setCustomConfig\<close>, followed by the reset of the state. \<open>Math.floor(rows * cols * 0.8)\<close> is
  \<open>(rows * cols * 4) div 5\<close> on integers (the double product of an integer and 0.8 is exact
  enough for every board the clamp admits).
\<close>

definition setCustomConfig :: "int \<Rightarrow> int \<Rightarrow> int \<Rightarrow> MinesweeperState" where
  "setCustomConfig rs cs ms =
     (let maxMines = (rs * cs * 4) div 5;
          validMines = min (max 1 ms) maxMines;
          config = \<lparr>rows = nat (max 5 (min 50 rs)), cols = nat (max 5 (min 50 cs)),
                    mines = validMines, difficulty = Custom\<rparr>
      in createMineState config)"

text \<open>
  \<open>cells_rel R board board'\<close>: the boards have the same shape and every cell of \<open>board'\<close>
  is related by \<open>R\<close> to the cell of \<open>board\<close> at the same place. It states what a command
  leaves unchanged.
\<close>

definition cells_rel :: "(MineCell \<Rightarrow> MineCell \<Rightarrow> bool) \<Rightarrow> MineBoard \<Rightarrow> MineBoard \<Rightarrow> bool" where
  "cells_rel R board board' = list_all2 (list_all2 R) board board'"

definition mines_kept :: "MineBoard \<Rightarrow> MineBoard \<Rightarrow> bool" where
  "mines_kept board board' = cells_rel (\<lambda>x y. isMine y = isMine x) board board'"


text \<open>
  What a command may do to a cell: the cell state stays or becomes revealed; once the mines
  are placed (\<open>fixed\<close>), \<open>isMine\<close> and \<open>neighborMines\<close> stay.
\<close>

definition cell_step :: "bool \<Rightarrow> MineCell \<Rightarrow> MineCell \<Rightarrow> bool" where
  "cell_step fixed x y =
     ((cstate y = cstate x \<or> cstate y = Revealed) \<and>
      (fixed \<longrightarrow> isMine y = isMine x \<and> neighborMines y = neighborMines x))"

definition state_step :: "MinesweeperState \<Rightarrow> MinesweeperState \<Rightarrow> bool" where
  "state_step s s' =
     (ms_config s' = ms_config s \<and> (ms_status s \<noteq> M_idle \<longrightarrow> ms_status s' \<noteq> M_idle) \<and>
      cells_rel (cell_step (ms_status s \<noteq> M_idle)) (ms_board s) (ms_board s'))"

text \<open>
  The states a game can be in: a new game on any configuration (the constructor, \<open>reset\<close>,
  \<open>changeDifficulty\<close>, \<open>setCustomConfig\<close>), then any sequence of reveals and flag toggles
  (\<open>autoRevealNeighbors\<close> is a sequence of reveals). A reveal that throws leaves the state
  it had reached.
\<close>

inductive ms_reachable :: "MinesweeperState \<Rightarrow> bool" where
  mreach_new: "ms_reachable (createMineState config)"
| mreach_reveal: "ms_reachable s \<Longrightarrow> revealCell fuel rnd now row col s = Some (r, s')
                   \<Longrightarrow> ms_reachable s'"
| mreach_flag: "ms_reachable s \<Longrightarrow> ms_reachable (snd (toggleFlag row col s))"

text \<open>The cells of the board that are hidden.\<close>

definition is_hidden :: "MineBoard \<Rightarrow> int \<times> int \<Rightarrow> bool" where
  "is_hidden board p = (case board_cell board (fst p) (snd p) of
                          None \<Rightarrow> False | Some c \<Rightarrow> cstate c = Hidden)"

definition hidden_cells :: "MinesweeperState \<Rightarrow> (int \<times> int) set" where
  "hidden_cells s = {p. is_hidden (ms_board s) p}"
section \<open>Block-Stack: proofs\<close>

lemma list_all_upt: "list_all P [0..<n] \<longleftrightarrow> (\<forall>j<n. P j)"
  by (auto simp: list_all_iff)

lemma rectangular_row_length:
  "rectangular board \<Longrightarrow> i < length board \<Longrightarrow> length (board ! i) = length (hd board)"
  by (simp add: rectangular_def list_all_length)

lemma rectangular_hd: "rectangular board \<Longrightarrow> board ! 0 = hd board"
  by (cases board) (simp_all add: rectangular_def)

lemma board_read_in:
  "rectangular board \<Longrightarrow> 0 \<le> y \<Longrightarrow> y < int (length board) \<Longrightarrow> 0 \<le> x
     \<Longrightarrow> x < int (length (hd board))
     \<Longrightarrow> board_read board y x = Some (board ! nat y ! nat x)"
  by (simp add: board_read_def rectangular_row_length nat_less_iff)

lemma canPlace_cols_rect:
  assumes "rectangular board"
  shows "canPlace_cols board pos row vs col =
     Inr (\<forall>j<length vs. vs ! j = 1 \<longrightarrow> cell_ok board pos row (col + j))"
proof (induction vs arbitrary: col)
  case Nil
  show ?case by simp
next
  case (Cons v vs)
  have ne: "board \<noteq> []" using assms by (simp add: rectangular_def)
  have hd0: "board ! 0 = hd board" using assms by (rule rectangular_hd)
  show ?case
  proof (cases "v = 1")
    case False
    then show ?thesis using Cons.IH [of "Suc col"] by (simp add: All_less_Suc2)
  next
    case True
    show ?thesis
    proof (cases "cell_ok board pos row col")
      case False
      then show ?thesis using True ne hd0 assms
        by (auto simp: cell_ok_def Let_def All_less_Suc2 board_read_in)
    next
      case ok: True
      then have rd: "board_read board (pos_y pos + int row) (pos_x pos + int col) = Some None"
        using assms by (simp add: cell_ok_def board_read_in)
      show ?thesis using True ok rd ne hd0 Cons.IH [of "Suc col"]
        by (simp add: Let_def All_less_Suc2) (simp add: cell_ok_def)
    qed
  qed
qed

lemma canPlace_rows_rect:
  assumes "rectangular board"
  shows "canPlace_rows board pos rs row =
     Inr (\<forall>i<length rs. \<forall>j<length (rs ! i). rs ! i ! j = 1 \<longrightarrow> cell_ok board pos (row + i) j)"
proof (induction rs arbitrary: row)
  case Nil
  show ?case by simp
next
  case (Cons r rs)
  show ?case using Cons.IH [of "Suc row"]
    by (simp add: canPlace_cols_rect [OF assms] All_less_Suc2 split: bool.splits)
qed

lemma canPlacePiece_spec:
  assumes "rectangular board"
  shows "canPlacePiece board piece pos = Inr (spec_fits board (shape piece) pos)"
  by (simp add: canPlacePiece_def canPlace_rows_rect [OF assms] spec_fits_def list_all_upt)

lemma try_kicks_spec:
  assumes "rectangular (t_board s)"
  shows "try_kicks s rp offs =
     Inr (case find (spec_fits (t_board s) (shape rp)) (map (kicked (position rp)) offs) of
            None \<Rightarrow> s
          | Some p \<Rightarrow> s\<lparr>currentPiece := Some (rp\<lparr>position := p\<rparr>)\<rparr>)"
  by (induction offs) (simp_all add: canPlacePiece_spec [OF assms] Let_def)

lemma PIECE_SHAPES_length: "length (PIECE_SHAPES t) = rotation_states t"
  by (cases t) simp_all

lemma rotatePiece_next: "rotatePiece piece = next_rotation_state piece"
  by (simp add: rotatePiece_def next_rotation_state_def next_index_def Let_def
      PIECE_SHAPES_length)

lemma next_rotation_state_position: "position (next_rotation_state piece) = position piece"
  by (simp add: next_rotation_state_def)

lemma spec_candidates_kicks:
  "spec_candidates p = p # map (kicked p) kickOffsets"
  by (simp add: spec_candidates_def kickOffsets_def kicked_def)

lemma engine_rotatePiece_spec:
  assumes "currentPiece s = Some piece" and "rectangular (t_board s)"
  shows "engine_rotatePiece s = Inr (spec_rotate s piece)"
proof -
  let ?r = "next_rotation_state piece"
  have same: "?r\<lparr>position := position piece\<rparr> = ?r"
    by (simp add: next_rotation_state_def)
  show ?thesis
    using assms(1)
    by (simp add: engine_rotatePiece_def spec_rotate_def Let_def spec_candidates_kicks
        canPlacePiece_spec [OF assms(2)] try_kicks_spec [OF assms(2)] same rotatePiece_next
        next_rotation_state_position)
qed

text \<open>
  Claim C9. In a playing state with a current piece (on a rectangular board), the rotate
  command replaces the piece by its next rotation state: the same type, the rotation index
  advanced by one and back to 0 after the last state of the type (2 states for I, S and Z,
  1 for O, 4 for T, J and L), the shape matrix of that index. It is placed at the first
  position, among the unmodified one and then the offsets (-1,0), (1,0), (0,-1), (-1,-1),
  (1,-1) in that order, at which every filled shape cell maps to an in-bounds empty board
  cell; when no candidate fits, the state is returned unchanged. In particular, when the
  unmodified position is blocked and the position shifted by (-1,0) fits, the piece's
  horizontal position decreases by 1.
\<close>

theorem rotate_wall_kick_order:
  assumes "t_status s = T_playing" and "currentPiece s = Some piece"
    and "rectangular (t_board s)"
  shows "handleInput_rotate s = Inr (spec_rotate s piece) \<and>
     (\<not> spec_fits (t_board s) (shape (next_rotation_state piece)) (position piece) \<and>
      spec_fits (t_board s) (shape (next_rotation_state piece))
        \<lparr>pos_x = pos_x (position piece) - 1, pos_y = pos_y (position piece)\<rparr>
      \<longrightarrow> handleInput_rotate s =
            Inr (s\<lparr>currentPiece :=
                   Some \<lparr>ptype = ptype piece,
                         position = \<lparr>pos_x = pos_x (position piece) - 1,
                                     pos_y = pos_y (position piece)\<rparr>,
                         rotation = (rotation piece + 1) mod rotation_states (ptype piece),
                         shape = PIECE_SHAPES (ptype piece)
                                   ! ((rotation piece + 1) mod rotation_states (ptype piece))\<rparr>\<rparr>))"
proof -
  have main: "handleInput_rotate s = Inr (spec_rotate s piece)"
    using assms by (simp add: handleInput_rotate_def engine_rotatePiece_spec)
  show ?thesis
    unfolding main
    by (simp add: spec_rotate_def Let_def spec_candidates_def)
       (simp add: next_rotation_state_def next_index_def)
qed

text \<open>
  The wall-kick scenario, run on \<open>kick_example\<close> (the I piece, from its last rotation state
  back to state 0) and on \<open>kick_example_T\<close> (the T piece, from state 2 to state 3): in both
  the rotated piece is blocked at its position and placed one column to the left.
\<close>

theorem rotate_wall_kick_order_witness:
  "t_status kick_example = T_playing \<and> rectangular (t_board kick_example) \<and>
   handleInput_rotate kick_example =
     Inr (kick_example\<lparr>currentPiece :=
        Some \<lparr>ptype = Piece_I, position = \<lparr>pos_x = 1, pos_y = 0\<rparr>, rotation = 0,
              shape = [[0,0,0,0],[1,1,1,1],[0,0,0,0],[0,0,0,0]]\<rparr>\<rparr>) \<and>
   t_status kick_example_T = T_playing \<and> rectangular (t_board kick_example_T) \<and>
   handleInput_rotate kick_example_T =
     Inr (kick_example_T\<lparr>currentPiece :=
        Some \<lparr>ptype = Piece_T, position = \<lparr>pos_x = 0, pos_y = 0\<rparr>, rotation = 3,
              shape = [[0,1,0],[1,1,0],[0,1,0]]\<rparr>\<rparr>)"
proof -
  let ?p = "\<lparr>ptype = Piece_I, position = \<lparr>pos_x = 2, pos_y = 0\<rparr>, rotation = 1,
             shape = PIECE_SHAPES Piece_I ! 1\<rparr>"
  let ?q = "\<lparr>ptype = Piece_T, position = \<lparr>pos_x = 1, pos_y = 0\<rparr>, rotation = 2,
             shape = PIECE_SHAPES Piece_T ! 2\<rparr>"
  have st: "t_status kick_example = T_playing" by (simp add: kick_example_def)
  have cp: "currentPiece kick_example = Some ?p" by (simp add: kick_example_def)
  have rect: "rectangular (t_board kick_example)"
    by (simp add: kick_example_def rectangular_def list_all_iff)
  have rot: "shape (next_rotation_state ?p) = [[0,0,0,0],[1,1,1,1],[0,0,0,0],[0,0,0,0]]"
    by (simp add: next_rotation_state_def next_index_def)
  have blocked: "\<not> spec_fits (t_board kick_example) (shape (next_rotation_state ?p)) (position ?p)"
    unfolding rot by (simp add: spec_fits_def cell_ok_def kick_example_def upt_rec)
  have free: "spec_fits (t_board kick_example) (shape (next_rotation_state ?p))
      \<lparr>pos_x = pos_x (position ?p) - 1, pos_y = pos_y (position ?p)\<rparr>"
    unfolding rot by (simp add: spec_fits_def cell_ok_def kick_example_def upt_rec)
  have one: "handleInput_rotate kick_example =
     Inr (kick_example\<lparr>currentPiece :=
        Some \<lparr>ptype = Piece_I, position = \<lparr>pos_x = 1, pos_y = 0\<rparr>, rotation = 0,
              shape = [[0,0,0,0],[1,1,1,1],[0,0,0,0],[0,0,0,0]]\<rparr>\<rparr>)"
    using rotate_wall_kick_order [OF st cp rect, THEN conjunct2] blocked free by simp
  have st': "t_status kick_example_T = T_playing" by (simp add: kick_example_T_def)
  have cp': "currentPiece kick_example_T = Some ?q" by (simp add: kick_example_T_def)
  have rect': "rectangular (t_board kick_example_T)"
    by (simp add: kick_example_T_def rectangular_def)
  have rot': "shape (next_rotation_state ?q) = [[0,1,0],[1,1,0],[0,1,0]]"
    by (simp add: next_rotation_state_def next_index_def)
  have blocked': "\<not> spec_fits (t_board kick_example_T) (shape (next_rotation_state ?q))
      (position ?q)"
    unfolding rot' by (simp add: spec_fits_def cell_ok_def kick_example_T_def upt_rec)
  have free': "spec_fits (t_board kick_example_T) (shape (next_rotation_state ?q))
      \<lparr>pos_x = pos_x (position ?q) - 1, pos_y = pos_y (position ?q)\<rparr>"
    unfolding rot' by (simp add: spec_fits_def cell_ok_def kick_example_T_def upt_rec)
  have two: "handleInput_rotate kick_example_T =
     Inr (kick_example_T\<lparr>currentPiece :=
        Some \<lparr>ptype = Piece_T, position = \<lparr>pos_x = 0, pos_y = 0\<rparr>, rotation = 3,
              shape = [[0,1,0],[1,1,0],[0,1,0]]\<rparr>\<rparr>)"
    using rotate_wall_kick_order [OF st' cp' rect', THEN conjunct2] blocked' free' by simp
  show ?thesis using st rect one st' rect' two by simp
qed

lemma clear_scan_filter:
  "k \<le> length board \<Longrightarrow>
   clear_scan board k newBoard cl =
     (filter (\<lambda>r. \<not> isComplete r) (take k board) @ newBoard,
      cl + length (filter isComplete (take k board)))"
  by (induction k arbitrary: newBoard cl) (simp_all add: take_Suc_conv_app_nth)

lemma pad_top_replicate:
  "pad_top board newBoard =
     replicate (length board - length newBoard) (replicate (length (board ! 0)) None) @ newBoard"
proof (induction board newBoard rule: pad_top.induct)
  case (1 board newBoard)
  show ?case
  proof (cases "length newBoard < length board")
    case True
    then have "length board - length newBoard = Suc (length board - Suc (length newBoard))"
      by simp
    then show ?thesis using 1 True
      by (subst pad_top.simps) (simp add: replicate_app_Cons_same)
  next
    case False
    then show ?thesis by (subst pad_top.simps) simp
  qed
qed

lemma length_filter_complete: "length board - length (filter (\<lambda>r. \<not> isComplete r) board)
      = length (filter isComplete board)"
    using sum_length_filter_compl [of isComplete board] by simp

lemma clearCompleteLines_filter:
  "clearCompleteLines board =
     (replicate (length (filter isComplete board)) (emptyRow board)
        @ filter (\<lambda>r. \<not> isComplete r) board,
      length (filter isComplete board))"
proof -
  have scan: "clear_scan board (length board) [] 0
      = (filter (\<lambda>r. \<not> isComplete r) board, length (filter isComplete board))"
    using clear_scan_filter [of "length board" board "[]" 0] by simp
  have w: "length (filter isComplete board) = 0 \<or> length (board ! 0) = length (hd board)"
    by (cases board) simp_all
  have pad: "pad_top board (filter (\<lambda>r. \<not> isComplete r) board)
      = replicate (length (filter isComplete board)) (emptyRow board)
          @ filter (\<lambda>r. \<not> isComplete r) board"
    unfolding pad_top_replicate length_filter_complete emptyRow_def using w by auto
  show ?thesis
    unfolding clearCompleteLines_def scan by (simp only: pad split_conv Let_def)
qed

lemma kept_row_index:
  assumes "i < length board" and "\<not> isComplete (board ! i)"
  shows "(replicate (length (filter isComplete board)) e
            @ filter (\<lambda>r. \<not> isComplete r) board)
          ! (i + length (filter isComplete (drop (Suc i) board))) = board ! i"
proof -
  let ?P = "\<lambda>r. \<not> isComplete r"
  have split: "board = take i board @ board ! i # drop (Suc i) board"
    using assms(1) by (rule id_take_nth_drop)
  have k: "length (filter isComplete board)
      = length (filter isComplete (take i board)) + length (filter isComplete (drop (Suc i) board))"
    by (subst split) (simp add: assms(2))
  have f: "filter ?P board
      = filter ?P (take i board) @ board ! i # filter ?P (drop (Suc i) board)"
    by (subst split) (simp add: assms(2))
  have li: "length (filter ?P (take i board)) + length (filter isComplete (take i board)) = i"
    using sum_length_filter_compl [of isComplete "take i board"] assms(1) by simp
  have idx: "i + length (filter isComplete (drop (Suc i) board))
      = length (filter isComplete board) + length (filter ?P (take i board))"
    using k li by simp
  show ?thesis
    unfolding idx by (simp add: nth_append f)
qed


text \<open>
  Claim C10. \<open>clearCompleteLines\<close> removes exactly the k rows whose cells are all filled,
  keeps the other rows in their order below k empty rows (so the height is unchanged and a
  kept row moves down by the number of complete rows below it), and reports k. In
  particular, on a board of height 20 whose complete rows are exactly rows 18 and 19, the
  result is two empty rows on top of the former rows 0 to 17, with clearedLines = 2.
\<close>

theorem clearCompleteLines_shifts:
  "clearCompleteLines board =
     (replicate (length (filter isComplete board)) (emptyRow board)
        @ filter (\<lambda>r. \<not> isComplete r) board,
      length (filter isComplete board)) \<and>
   length (fst (clearCompleteLines board)) = length board \<and>
   (\<forall>i<length board. \<not> isComplete (board ! i) \<longrightarrow>
      fst (clearCompleteLines board) ! (i + length (filter isComplete (drop (Suc i) board)))
        = board ! i) \<and>
   (length board = 20 \<and> isComplete (board ! 18) \<and> isComplete (board ! 19) \<and>
    (\<forall>i<18. \<not> isComplete (board ! i)) \<longrightarrow>
      clearCompleteLines board = (emptyRow board # emptyRow board # take 18 board, 2))"
proof -
  let ?P = "\<lambda>r. \<not> isComplete r"
  have len: "length (filter isComplete board) + length (filter ?P board) = length board"
    using sum_length_filter_compl [of isComplete board] by simp
  have particular: "clearCompleteLines board = (emptyRow board # emptyRow board # take 18 board, 2)"
    if h: "length board = 20" "isComplete (board ! 18)" "isComplete (board ! 19)"
      "\<forall>i<18. \<not> isComplete (board ! i)"
  proof -
    have "board = take 18 board @ drop 18 board" by simp
    moreover have "drop 18 board = [board ! 18, board ! 19]"
      using h(1) Cons_nth_drop_Suc [of 18 board] Cons_nth_drop_Suc [of 19 board] by simp
    ultimately have split: "board = take 18 board @ [board ! 18, board ! 19]" by simp
    have "\<forall>r\<in>set (take 18 board). \<not> isComplete r"
      using h(1,4) by (auto simp: in_set_conv_nth)
    then have keep: "filter ?P (take 18 board) = take 18 board"
      and none: "filter isComplete (take 18 board) = []"
      by (simp_all add: filter_empty_conv)
    have f1: "filter ?P board = take 18 board"
      by (subst split) (simp add: keep h(2,3))
    have f2: "filter isComplete board = [board ! 18, board ! 19]"
      by (subst split) (simp add: none h(2,3))
    show ?thesis
      by (simp add: clearCompleteLines_filter f1 f2) 
  qed
  have c2: "length (fst (clearCompleteLines board)) = length board"
    using len by (simp add: clearCompleteLines_filter)
  have c3: "\<forall>i<length board. \<not> isComplete (board ! i) \<longrightarrow>
      fst (clearCompleteLines board) ! (i + length (filter isComplete (drop (Suc i) board)))
        = board ! i"
    by (simp add: clearCompleteLines_filter kept_row_index)
  show ?thesis
    using clearCompleteLines_filter [of board] c2 c3 particular by blast
qed

text \<open>The height-20 scenario, run on \<open>clear_example\<close>.\<close>

theorem clearCompleteLines_shifts_witness:
  "length clear_example = 20 \<and> isComplete (clear_example ! 18) \<and> isComplete (clear_example ! 19) \<and>
   \<not> isComplete (clear_example ! 17) \<and>
   clearCompleteLines clear_example = ([None, None] # [None, None] # replicate 18 [None, Some Piece_T], 2) \<and>
   fst (clearCompleteLines clear_example) ! 19 = clear_example ! 17"
proof -
  have l: "length clear_example = 20" by (simp add: clear_example_def)
  have c18: "isComplete (clear_example ! 18)" by (simp add: clear_example_def nth_append isComplete_def)
  have c19: "isComplete (clear_example ! 19)" by (simp add: clear_example_def nth_append isComplete_def)
  have inc: "\<forall>i<18. \<not> isComplete (clear_example ! i)"
    by (simp add: clear_example_def nth_append isComplete_def)
  have e: "emptyRow clear_example = [None, None]"
    by (simp add: clear_example_def emptyRow_def numeral_eq_Suc)
  have t: "take 18 clear_example = replicate 18 [None, Some Piece_T]"
    by (simp add: clear_example_def)
  have d: "length (filter isComplete (drop (Suc 17) clear_example)) = 2"
    by (simp add: clear_example_def isComplete_def)
  have i17: "\<not> isComplete (clear_example ! 17)" using inc by simp
  have sh: "fst (clearCompleteLines clear_example) ! (17 + length (filter isComplete (drop (Suc 17) clear_example))) = clear_example ! 17"
    using clearCompleteLines_shifts [of clear_example, THEN conjunct2, THEN conjunct2,
        THEN conjunct1, rule_format, of 17] l i17 by simp
  have "clearCompleteLines clear_example
      = (emptyRow clear_example # emptyRow clear_example # take 18 clear_example, 2)"
    using clearCompleteLines_shifts [of clear_example, THEN conjunct2, THEN conjunct2,
        THEN conjunct2] l c18 c19 inc by blast
  moreover have "fst (clearCompleteLines clear_example) ! 19 = clear_example ! 17"
    using sh d by simp
  ultimately show ?thesis
    using l c18 c19 i17 by (simp add: e t)
qed

section \<open>Tile-Merge: proofs\<close>

subsection \<open>mergeLine and the line transform of the specification\<close>

lemma pad_zeros_replicate: "pad_zeros n r = r @ replicate (n - length r) 0"
proof (induction n r rule: pad_zeros.induct)
  case (1 n r)
  show ?case
  proof (cases "length r < n")
    case True
    then have "n - length r = Suc (n - Suc (length r))" by simp
    then show ?thesis using 1 True
      by (subst pad_zeros.simps) simp
  next
    case False
    then show ?thesis by (subst pad_zeros.simps) simp
  qed
qed

lemma merge_scan_done: "\<not> i + 1 < length xs \<Longrightarrow> merge_scan i xs sc = (xs, sc)"
  by (subst merge_scan.simps) simp

lemma merge_scan_skip:
  "i + 1 < length xs \<Longrightarrow> xs ! i \<noteq> xs ! (i + 1) \<Longrightarrow> merge_scan i xs sc = merge_scan (i + 1) xs sc"
  by (subst merge_scan.simps) simp

lemma merge_scan_merge:
  "i + 1 < length xs \<Longrightarrow> xs ! i = xs ! (i + 1) \<Longrightarrow>
   merge_scan i xs sc = merge_scan (i + 1) (xs[i := xs ! i * 2, i + 1 := 0]) (sc + xs ! i * 2)"
  by (subst merge_scan.simps) (simp add: Let_def)

lemma merge_scan_spec:
  assumes "\<forall>x\<in>set suf. x \<noteq> 0"
  shows "\<exists>zs. merge_scan (length pre) (pre @ suf) sc = (pre @ zs, sc + snd (spec_merge suf)) \<and>
              filter (\<lambda>v. v \<noteq> 0) zs = fst (spec_merge suf)"
  using assms
proof (induction suf arbitrary: pre sc rule: spec_merge.induct)
  case (1 a b rest)
  let ?i = "length pre"
  have len: "?i + 1 < length (pre @ a # b # rest)" by simp
  have ni: "(pre @ a # b # rest) ! ?i = a" by simp
  have ni1: "(pre @ a # b # rest) ! (?i + 1) = b" by (simp add: nth_append)
  show ?case
  proof (cases "a = b")
    case True
    have a0: "a \<noteq> 0" using 1(3) by simp
    have nz: "\<forall>x\<in>set rest. x \<noteq> 0" using 1(3) by simp
    have upd: "(pre @ a # b # rest)[?i := a * 2, ?i + 1 := 0] = (pre @ [a * 2]) @ 0 # rest"
      by (simp add: list_update_append)
    have step1: "merge_scan ?i (pre @ a # b # rest) sc
        = merge_scan (?i + 1) ((pre @ [a * 2]) @ 0 # rest) (sc + a * 2)"
      using merge_scan_merge [OF len] ni ni1 True upd by simp
    have step2: "merge_scan (?i + 1) ((pre @ [a * 2]) @ 0 # rest) (sc + a * 2)
        = merge_scan (length (pre @ [a * 2, 0])) ((pre @ [a * 2, 0]) @ rest) (sc + a * 2)"
    proof (cases rest)
      case Nil
      then show ?thesis by (simp add: merge_scan_done)
    next
      case (Cons c rest')
      then have c0: "c \<noteq> 0" using nz by simp
      have "((pre @ [a * 2]) @ 0 # rest) ! (?i + 1) = 0"
        by (simp add: nth_append)
      moreover have "((pre @ [a * 2]) @ 0 # rest) ! (?i + 1 + 1) = c"
        using Cons by (simp add: nth_append)
      moreover have "?i + 1 + 1 < length ((pre @ [a * 2]) @ 0 # rest)" using Cons by simp
      ultimately have "merge_scan (?i + 1) ((pre @ [a * 2]) @ 0 # rest) (sc + a * 2)
          = merge_scan (?i + 1 + 1) ((pre @ [a * 2]) @ 0 # rest) (sc + a * 2)"
        using c0 by (intro merge_scan_skip) simp_all
      then show ?thesis by simp
    qed
    obtain zs where zs: "merge_scan (length (pre @ [a * 2, 0])) ((pre @ [a * 2, 0]) @ rest) (sc + a * 2)
          = ((pre @ [a * 2, 0]) @ zs, sc + a * 2 + snd (spec_merge rest))"
        "filter (\<lambda>v. v \<noteq> 0) zs = fst (spec_merge rest)"
      using 1(1) [OF True nz, of "pre @ [a * 2, 0]" "sc + a * 2"] by blast
    have "merge_scan ?i (pre @ a # b # rest) sc
        = (pre @ (a * 2 # 0 # zs), sc + snd (spec_merge (a # b # rest)))"
      using step1 step2 zs(1) True by (simp add: case_prod_beta)
    moreover have "filter (\<lambda>v. v \<noteq> 0) (a * 2 # 0 # zs) = fst (spec_merge (a # b # rest))"
      using zs(2) True a0 by (simp add: case_prod_beta)
    ultimately show ?thesis by blast
  next
    case False
    have nz: "\<forall>x\<in>set (b # rest). x \<noteq> 0" using 1(3) by simp
    have a0: "a \<noteq> 0" using 1(3) by simp
    have step1: "merge_scan ?i (pre @ a # b # rest) sc
        = merge_scan (length (pre @ [a])) ((pre @ [a]) @ b # rest) sc"
      using merge_scan_skip [OF len] ni ni1 False by simp
    obtain zs where zs: "merge_scan (length (pre @ [a])) ((pre @ [a]) @ b # rest) sc
          = ((pre @ [a]) @ zs, sc + snd (spec_merge (b # rest)))"
        "filter (\<lambda>v. v \<noteq> 0) zs = fst (spec_merge (b # rest))"
      using 1(2) [OF False nz, of "pre @ [a]" sc] by blast
    have "merge_scan ?i (pre @ a # b # rest) sc
        = (pre @ (a # zs), sc + snd (spec_merge (a # b # rest)))"
      using step1 zs(1) False by (simp add: case_prod_beta)
    moreover have "filter (\<lambda>v. v \<noteq> 0) (a # zs) = fst (spec_merge (a # b # rest))"
      using zs(2) False a0 by (simp add: case_prod_beta)
    ultimately show ?thesis by blast
  qed
qed (simp_all add: merge_scan_done)

lemma mergeLine_spec: "mergeLine line = spec_mergeLine line"
proof -
  let ?f = "filter (\<lambda>v. v \<noteq> 0) line"
  obtain zs where zs: "merge_scan 0 ?f 0 = (zs, snd (spec_merge ?f))"
      "filter (\<lambda>v. v \<noteq> 0) zs = fst (spec_merge ?f)"
    using merge_scan_spec [of ?f "[]" 0] by auto
  show ?thesis
    using zs
    by (simp add: mergeLine_def spec_mergeLine_def Let_def pad_zeros_replicate case_prod_beta)
qed


subsection \<open>Writing lines to the board\<close>

lemma spec_merge_length: "length (fst (spec_merge xs)) \<le> length xs"
  by (induction xs rule: spec_merge.induct) (auto simp: case_prod_beta)

lemma mergeLine_length: "length (fst (mergeLine line)) = length line"
proof -
  have "length (fst (spec_merge (filter (\<lambda>v. v \<noteq> 0) line))) \<le> length line"
    using spec_merge_length [of "filter (\<lambda>v. v \<noteq> 0) line"] length_filter_le [of "\<lambda>v. v \<noteq> 0" line]
    by linarith
  then show ?thesis
    by (simp add: mergeLine_spec spec_mergeLine_def case_prod_beta)
qed

lemma square_lengths:
  "square sz b \<Longrightarrow> length b = sz" "square sz b \<Longrightarrow> r < sz \<Longrightarrow> length (b ! r) = sz"
  by (simp_all add: square_def list_all_length)

lemma upd_cell_lengths:
  "length (upd_cell b r c f) = length b"
  "n < length b \<Longrightarrow> length (upd_cell b r c f ! n) = length (b ! n)"
  by (cases "n = r"; simp add: upd_cell_def)+

lemma square_upd_cell: "square sz (upd_cell b r c f) = square sz b"
  by (simp add: square_def list_all_length upd_cell_lengths cong: conj_cong)

lemma cell_val_upd_cell:
  assumes "square sz b" and "r < sz" and "c < sz" and "r' < sz" and "c' < sz"
  shows "cell_val (upd_cell b r c f) r' c' =
     (if r' = r \<and> c' = c then cvalue (f (b ! r ! c)) else cell_val b r' c')"
  using assms square_lengths [of sz b]
  by (simp add: cell_val_def upd_cell_def nth_list_update)

lemma write_line_fold:
  assumes sq: "square sz b"
    and rng: "\<forall>j<length cells. fst (cells ! j) < sz \<and> snd (cells ! j) < sz"
    and dist: "distinct cells"
    and k: "k \<le> length cells"
  shows "square sz (fold (\<lambda>k b. upd_cell b (fst (cells ! k)) (snd (cells ! k)) (\<lambda>c. c\<lparr>cvalue := nl ! k\<rparr>)) [0..<k] b) \<and>
     (\<forall>j<k. cell_val (fold (\<lambda>k b. upd_cell b (fst (cells ! k)) (snd (cells ! k)) (\<lambda>c. c\<lparr>cvalue := nl ! k\<rparr>)) [0..<k] b)
               (fst (cells ! j)) (snd (cells ! j)) = nl ! j) \<and>
     (\<forall>r<sz. \<forall>c<sz. (r, c) \<notin> set (take k cells) \<longrightarrow>
        cell_val (fold (\<lambda>k b. upd_cell b (fst (cells ! k)) (snd (cells ! k)) (\<lambda>c. c\<lparr>cvalue := nl ! k\<rparr>)) [0..<k] b) r c
          = cell_val b r c)"
  using k
proof (induction k)
  case 0
  show ?case using sq by simp
next
  case (Suc k)
  let ?F = "\<lambda>k b. upd_cell b (fst (cells ! k)) (snd (cells ! k)) (\<lambda>c. c\<lparr>cvalue := nl ! k\<rparr>)"
  let ?bk = "fold ?F [0..<k] b"
  have kl: "k < length cells" using Suc.prems by simp
  have IH: "square sz ?bk"
      "\<forall>j<k. cell_val ?bk (fst (cells ! j)) (snd (cells ! j)) = nl ! j"
      "\<forall>r<sz. \<forall>c<sz. (r, c) \<notin> set (take k cells) \<longrightarrow> cell_val ?bk r c = cell_val b r c"
    using Suc.IH kl by simp_all
  have step: "fold ?F [0..<Suc k] b = upd_cell ?bk (fst (cells ! k)) (snd (cells ! k)) (\<lambda>c. c\<lparr>cvalue := nl ! k\<rparr>)"
    by simp
  have in_k: "fst (cells ! k) < sz" "snd (cells ! k) < sz" using rng kl by simp_all
  have a: "square sz (fold ?F [0..<Suc k] b)"
    unfolding step using IH(1) by (simp add: square_upd_cell)
  have b1: "cell_val (fold ?F [0..<Suc k] b) (fst (cells ! j)) (snd (cells ! j)) = nl ! j"
    if "j < Suc k" for j
  proof (cases "j = k")
    case True
    then show ?thesis unfolding step
      using cell_val_upd_cell [OF IH(1) in_k in_k] by simp
  next
    case False
    then have jk: "j < k" using that by simp
    then have "cells ! j \<noteq> cells ! k"
      using dist kl by (simp add: nth_eq_iff_index_eq)
    then have ne: "\<not> (fst (cells ! j) = fst (cells ! k) \<and> snd (cells ! j) = snd (cells ! k))"
      by (simp add: prod_eq_iff)
    have in_j: "fst (cells ! j) < sz" "snd (cells ! j) < sz" using rng kl jk by simp_all
    show ?thesis unfolding step
      using cell_val_upd_cell [OF IH(1) in_k in_j] ne IH(2) jk by simp
  qed
  have c1: "cell_val (fold ?F [0..<Suc k] b) r c = cell_val b r c"
    if "r < sz" "c < sz" "(r, c) \<notin> set (take (Suc k) cells)" for r c
  proof -
    have "(r, c) \<noteq> cells ! k" and nt: "(r, c) \<notin> set (take k cells)"
      using that(3) kl by (simp_all add: take_Suc_conv_app_nth)
    then have ne: "\<not> (r = fst (cells ! k) \<and> c = snd (cells ! k))" by auto
    show ?thesis unfolding step
      using cell_val_upd_cell [OF IH(1) in_k that(1,2)] ne IH(3) that(1,2) nt by simp
  qed
  show ?case using a b1 c1 by blast
qed

lemma line_vals_nth:
  "j < length cells \<Longrightarrow> line_vals b cells ! j = cell_val b (fst (cells ! j)) (snd (cells ! j))"
  by (simp add: line_vals_def)

lemma write_line_vals:
  assumes "square sz b"
    and "\<forall>p\<in>set cells. fst p < sz \<and> snd p < sz"
    and "distinct cells"
    and "length nl = length cells"
  shows "square sz (write_line b cells nl)"
    and "line_vals (write_line b cells nl) cells = nl"
    and "\<forall>r<sz. \<forall>c<sz. (r, c) \<notin> set cells \<longrightarrow> cell_val (write_line b cells nl) r c = cell_val b r c"
proof -
  have rng: "\<forall>j<length cells. fst (cells ! j) < sz \<and> snd (cells ! j) < sz"
    using assms(2) by simp
  note w = write_line_fold [OF assms(1) rng assms(3), of "length cells" nl, simplified,
      folded write_line_def]
  show "square sz (write_line b cells nl)" using w by blast
  show "line_vals (write_line b cells nl) cells = nl"
    using w assms(4) by (intro nth_equalityI) (simp_all add: line_vals_def)
  show "\<forall>r<sz. \<forall>c<sz. (r, c) \<notin> set cells \<longrightarrow> cell_val (write_line b cells nl) r c = cell_val b r c"
    using w by blast
qed

lemma line_vals_cong:
  "(\<And>p. p \<in> set cells \<Longrightarrow> cell_val b (fst p) (snd p) = cell_val b' (fst p) (snd p))
   \<Longrightarrow> line_vals b cells = line_vals b' cells"
  by (simp add: line_vals_def)

lemma fold_lines:
  fixes step :: "nat \<Rightarrow> Board2048 \<times> nat \<Rightarrow> Board2048 \<times> nat"
  assumes step: "\<And>i b sc. i < sz \<Longrightarrow> square sz b \<Longrightarrow>
       square sz (fst (step i (b, sc))) \<and>
       snd (step i (b, sc)) = sc + snd (mergeLine (line_vals b (cells i))) \<and>
       line_vals (fst (step i (b, sc))) (cells i) = fst (mergeLine (line_vals b (cells i))) \<and>
       (\<forall>r<sz. \<forall>c<sz. (r, c) \<notin> set (cells i) \<longrightarrow>
           cell_val (fst (step i (b, sc))) r c = cell_val b r c)"
    and inr: "\<And>i p. i < sz \<Longrightarrow> p \<in> set (cells i) \<Longrightarrow> fst p < sz \<and> snd p < sz"
    and disj: "\<And>i j. i < sz \<Longrightarrow> j < sz \<Longrightarrow> i \<noteq> j \<Longrightarrow> set (cells i) \<inter> set (cells j) = {}"
    and sq: "square sz b"
    and k: "k \<le> sz"
  shows "square sz (fst (fold step [0..<k] (b, 0))) \<and>
     snd (fold step [0..<k] (b, 0)) = (\<Sum>i<k. snd (mergeLine (line_vals b (cells i)))) \<and>
     (\<forall>i<sz. line_vals (fst (fold step [0..<k] (b, 0))) (cells i) =
        (if i < k then fst (mergeLine (line_vals b (cells i))) else line_vals b (cells i)))"
  using k
proof (induction k)
  case 0
  show ?case using sq by simp
next
  case (Suc k)
  let ?acc = "fold step [0..<k] (b, 0)"
  have kl: "k < sz" using Suc.prems by simp
  have IH: "square sz (fst ?acc)"
      "snd ?acc = (\<Sum>i<k. snd (mergeLine (line_vals b (cells i))))"
      "\<forall>i<sz. line_vals (fst ?acc) (cells i) =
        (if i < k then fst (mergeLine (line_vals b (cells i))) else line_vals b (cells i))"
    using Suc.IH kl by simp_all
  have f: "fold step [0..<Suc k] (b, 0) = step k (fst ?acc, snd ?acc)" by simp
  have same: "line_vals (fst ?acc) (cells k) = line_vals b (cells k)"
    using IH(3) kl by simp
  note st = step [OF kl IH(1), of "snd ?acc", unfolded same]
  have other: "line_vals (fst (step k (fst ?acc, snd ?acc))) (cells i) = line_vals (fst ?acc) (cells i)"
    if "i < sz" "i \<noteq> k" for i
  proof (rule line_vals_cong)
    fix p assume p: "p \<in> set (cells i)"
    then have "p \<notin> set (cells k)" using disj [OF that(1) kl that(2)] by blast
    moreover have "fst p < sz" "snd p < sz" using inr [OF that(1) p] by simp_all
    ultimately show "cell_val (fst (step k (fst ?acc, snd ?acc))) (fst p) (snd p)
        = cell_val (fst ?acc) (fst p) (snd p)"
      using st by (metis prod.collapse)
  qed
  have a: "square sz (fst (fold step [0..<Suc k] (b, 0)))" unfolding f using st by blast
  have s: "snd (fold step [0..<Suc k] (b, 0)) = (\<Sum>i<Suc k. snd (mergeLine (line_vals b (cells i))))"
    unfolding f using st IH(2) by simp
  have l: "line_vals (fst (fold step [0..<Suc k] (b, 0))) (cells i) =
        (if i < Suc k then fst (mergeLine (line_vals b (cells i))) else line_vals b (cells i))"
    if "i < sz" for i
  proof (cases "i = k")
    case True
    then show ?thesis unfolding f using st by simp
  next
    case False
    then show ?thesis unfolding f using other [OF that False] IH(3) that by auto
  qed
  show ?case using a s l by blast
qed

text \<open>The cells of rows and columns.\<close>

lemma row_cells_facts:
  "length (row_cells sz i) = sz"
  "distinct (row_cells sz i)"
  "p \<in> set (row_cells sz i) \<longleftrightarrow> fst p = i \<and> snd p < sz"
  "j < sz \<Longrightarrow> row_cells sz i ! j = (i, j)"
  by (cases p; auto simp: row_cells_def distinct_map inj_on_def)+

lemma col_cells_facts:
  "length (col_cells sz i) = sz"
  "distinct (col_cells sz i)"
  "p \<in> set (col_cells sz i) \<longleftrightarrow> snd p = i \<and> fst p < sz"
  "j < sz \<Longrightarrow> col_cells sz i ! j = (j, i)"
  by (cases p; auto simp: col_cells_def distinct_map inj_on_def)+

lemma line_vals_rev: "line_vals b (rev cells) = rev (line_vals b cells)"
  by (simp add: line_vals_def rev_map)

lemma row_line_vals:
  "square sz b \<Longrightarrow> i < sz \<Longrightarrow> map cvalue (b ! i) = line_vals b (row_cells sz i)"
  by (intro nth_equalityI) (simp_all add: square_lengths line_vals_def row_cells_def cell_val_def)

lemma col_line_vals: "map (\<lambda>row. cell_val b row i) [0..<sz] = line_vals b (col_cells sz i)"
  by (simp add: line_vals_def col_cells_def comp_def)

lemma col_line_vals_rev:
  "map (\<lambda>row. cell_val b row i) (rev [0..<sz]) = line_vals b (rev (col_cells sz i))"
  by (simp add: line_vals_def col_cells_def comp_def rev_map)

lemma down_cells: "map (\<lambda>row. (sz - 1 - row, i)) [0..<sz] = rev (col_cells sz i)"
  by (intro nth_equalityI) (simp_all add: col_cells_def rev_nth)

lemma rows_disjoint: "i \<noteq> j \<Longrightarrow> set (row_cells sz i) \<inter> set (row_cells sz j) = {}"
  by (auto simp: row_cells_def)

lemma cols_disjoint: "i \<noteq> j \<Longrightarrow> set (col_cells sz i) \<inter> set (col_cells sz j) = {}"
  by (auto simp: col_cells_def)

lemma moveLeft_row_step:
  assumes i: "i < sz" and sq: "square sz b"
  shows "square sz (fst (moveLeft_row sz i (b, sc))) \<and>
       snd (moveLeft_row sz i (b, sc)) = sc + snd (mergeLine (line_vals b (row_cells sz i))) \<and>
       line_vals (fst (moveLeft_row sz i (b, sc))) (row_cells sz i)
         = fst (mergeLine (line_vals b (row_cells sz i))) \<and>
       (\<forall>r<sz. \<forall>c<sz. (r, c) \<notin> set (row_cells sz i) \<longrightarrow>
           cell_val (fst (moveLeft_row sz i (b, sc))) r c = cell_val b r c)"
proof -
  let ?nl = "fst (mergeLine (line_vals b (row_cells sz i)))"
  have eq: "moveLeft_row sz i (b, sc)
      = (write_line b (row_cells sz i) ?nl, sc + snd (mergeLine (line_vals b (row_cells sz i))))"
    by (simp add: moveLeft_row_def Let_def case_prod_beta row_line_vals [OF sq i])
  have rng: "\<forall>p\<in>set (row_cells sz i). fst p < sz \<and> snd p < sz"
    using i by (simp add: row_cells_facts)
  have len: "length ?nl = length (row_cells sz i)"
    by (simp add: mergeLine_length line_vals_def)
  show ?thesis
    unfolding eq using write_line_vals [OF sq rng row_cells_facts(2) len] by simp
qed

lemma moveRight_row_step:
  assumes i: "i < sz" and sq: "square sz b"
  shows "square sz (fst (moveRight_row sz i (b, sc))) \<and>
       snd (moveRight_row sz i (b, sc)) = sc + snd (mergeLine (line_vals b (rev (row_cells sz i)))) \<and>
       line_vals (fst (moveRight_row sz i (b, sc))) (rev (row_cells sz i))
         = fst (mergeLine (line_vals b (rev (row_cells sz i)))) \<and>
       (\<forall>r<sz. \<forall>c<sz. (r, c) \<notin> set (rev (row_cells sz i)) \<longrightarrow>
           cell_val (fst (moveRight_row sz i (b, sc))) r c = cell_val b r c)"
proof -
  let ?nl = "fst (mergeLine (line_vals b (rev (row_cells sz i))))"
  have eq: "moveRight_row sz i (b, sc)
      = (write_line b (row_cells sz i) (rev ?nl),
         sc + snd (mergeLine (line_vals b (rev (row_cells sz i)))))"
    by (simp add: moveRight_row_def Let_def case_prod_beta row_line_vals [OF sq i] line_vals_rev)
  have rng: "\<forall>p\<in>set (row_cells sz i). fst p < sz \<and> snd p < sz"
    using i by (simp add: row_cells_facts)
  have len: "length (rev ?nl) = length (row_cells sz i)"
    by (simp add: mergeLine_length line_vals_def)
  note w = write_line_vals [OF sq rng row_cells_facts(2) len]
  have "line_vals (write_line b (row_cells sz i) (rev ?nl)) (rev (row_cells sz i)) = ?nl"
    using w(2) by (simp add: line_vals_rev)
  then show ?thesis
    unfolding eq using w(1,3) by simp
qed

lemma moveUp_col_step:
  assumes i: "i < sz" and sq: "square sz b"
  shows "square sz (fst (moveUp_col sz i (b, sc))) \<and>
       snd (moveUp_col sz i (b, sc)) = sc + snd (mergeLine (line_vals b (col_cells sz i))) \<and>
       line_vals (fst (moveUp_col sz i (b, sc))) (col_cells sz i)
         = fst (mergeLine (line_vals b (col_cells sz i))) \<and>
       (\<forall>r<sz. \<forall>c<sz. (r, c) \<notin> set (col_cells sz i) \<longrightarrow>
           cell_val (fst (moveUp_col sz i (b, sc))) r c = cell_val b r c)"
proof -
  let ?nl = "fst (mergeLine (line_vals b (col_cells sz i)))"
  have eq: "moveUp_col sz i (b, sc)
      = (write_line b (col_cells sz i) ?nl, sc + snd (mergeLine (line_vals b (col_cells sz i))))"
    by (simp add: moveUp_col_def Let_def case_prod_beta col_line_vals)
  have rng: "\<forall>p\<in>set (col_cells sz i). fst p < sz \<and> snd p < sz"
    using i by (simp add: col_cells_facts)
  have len: "length ?nl = length (col_cells sz i)"
    by (simp add: mergeLine_length line_vals_def)
  show ?thesis
    unfolding eq using write_line_vals [OF sq rng col_cells_facts(2) len] by simp
qed

lemma moveDown_col_step:
  assumes i: "i < sz" and sq: "square sz b"
  shows "square sz (fst (moveDown_col sz i (b, sc))) \<and>
       snd (moveDown_col sz i (b, sc)) = sc + snd (mergeLine (line_vals b (rev (col_cells sz i)))) \<and>
       line_vals (fst (moveDown_col sz i (b, sc))) (rev (col_cells sz i))
         = fst (mergeLine (line_vals b (rev (col_cells sz i)))) \<and>
       (\<forall>r<sz. \<forall>c<sz. (r, c) \<notin> set (rev (col_cells sz i)) \<longrightarrow>
           cell_val (fst (moveDown_col sz i (b, sc))) r c = cell_val b r c)"
proof -
  let ?cs = "rev (col_cells sz i)"
  let ?nl = "fst (mergeLine (line_vals b ?cs))"
  have eq: "moveDown_col sz i (b, sc)
      = (write_line b ?cs ?nl, sc + snd (mergeLine (line_vals b ?cs)))"
    unfolding moveDown_col_def down_cells
    by (simp add: Let_def case_prod_beta col_line_vals_rev)
  have rng: "\<forall>p\<in>set ?cs. fst p < sz \<and> snd p < sz"
    using i by (simp add: col_cells_facts)
  have d: "distinct ?cs" by (simp add: col_cells_facts)
  have len: "length ?nl = length ?cs"
    by (simp add: mergeLine_length line_vals_def)
  show ?thesis
    unfolding eq using write_line_vals [OF sq rng d len] by simp
qed

lemma moveLeft_lines:
  assumes "square sz b"
  shows "square sz (fst (moveLeft sz b)) \<and>
     snd (moveLeft sz b) = (\<Sum>i<sz. snd (mergeLine (line_vals b (row_cells sz i)))) \<and>
     (\<forall>i<sz. line_vals (fst (moveLeft sz b)) (row_cells sz i)
        = fst (mergeLine (line_vals b (row_cells sz i))))"
  using fold_lines [of sz "moveLeft_row sz" "row_cells sz" b sz, OF moveLeft_row_step _ _ assms]
  by (simp add: moveLeft_def row_cells_facts rows_disjoint)

lemma moveRight_lines:
  assumes "square sz b"
  shows "square sz (fst (moveRight sz b)) \<and>
     snd (moveRight sz b) = (\<Sum>i<sz. snd (mergeLine (rev (line_vals b (row_cells sz i))))) \<and>
     (\<forall>i<sz. line_vals (fst (moveRight sz b)) (row_cells sz i)
        = rev (fst (mergeLine (rev (line_vals b (row_cells sz i))))))"
proof -
  note f = fold_lines [of sz "moveRight_row sz" "\<lambda>i. rev (row_cells sz i)" b sz,
      OF moveRight_row_step _ _ assms, simplified row_cells_facts set_rev rows_disjoint,
      folded moveRight_def]
  have f': "square sz (fst (moveRight sz b)) \<and>
     snd (moveRight sz b) = (\<Sum>i<sz. snd (mergeLine (line_vals b (rev (row_cells sz i))))) \<and>
     (\<forall>i<sz. line_vals (fst (moveRight sz b)) (rev (row_cells sz i))
        = fst (mergeLine (line_vals b (rev (row_cells sz i)))))"
    using f by (simp add: rows_disjoint)
  have "line_vals (fst (moveRight sz b)) (row_cells sz i)
        = rev (fst (mergeLine (rev (line_vals b (row_cells sz i)))))" if "i < sz" for i
    using f' that by (simp add: line_vals_rev rev_swap)
  then show ?thesis using f' by (simp add: line_vals_rev)
qed

lemma moveUp_lines:
  assumes "square sz b"
  shows "square sz (fst (moveUp sz b)) \<and>
     snd (moveUp sz b) = (\<Sum>i<sz. snd (mergeLine (line_vals b (col_cells sz i)))) \<and>
     (\<forall>i<sz. line_vals (fst (moveUp sz b)) (col_cells sz i)
        = fst (mergeLine (line_vals b (col_cells sz i))))"
  using fold_lines [of sz "moveUp_col sz" "col_cells sz" b sz, OF moveUp_col_step _ _ assms]
  by (simp add: moveUp_def col_cells_facts cols_disjoint)

lemma moveDown_lines:
  assumes "square sz b"
  shows "square sz (fst (moveDown sz b)) \<and>
     snd (moveDown sz b) = (\<Sum>i<sz. snd (mergeLine (rev (line_vals b (col_cells sz i))))) \<and>
     (\<forall>i<sz. line_vals (fst (moveDown sz b)) (col_cells sz i)
        = rev (fst (mergeLine (rev (line_vals b (col_cells sz i))))))"
proof -
  note f = fold_lines [of sz "moveDown_col sz" "\<lambda>i. rev (col_cells sz i)" b sz,
      OF moveDown_col_step _ _ assms, simplified col_cells_facts set_rev cols_disjoint,
      folded moveDown_def]
  have f': "square sz (fst (moveDown sz b)) \<and>
     snd (moveDown sz b) = (\<Sum>i<sz. snd (mergeLine (line_vals b (rev (col_cells sz i))))) \<and>
     (\<forall>i<sz. line_vals (fst (moveDown sz b)) (rev (col_cells sz i))
        = fst (mergeLine (line_vals b (rev (col_cells sz i)))))"
    using f by (simp add: cols_disjoint)
  have "line_vals (fst (moveDown sz b)) (col_cells sz i)
        = rev (fst (mergeLine (rev (line_vals b (col_cells sz i)))))" if "i < sz" for i
    using f' that by (simp add: line_vals_rev rev_swap)
  then show ?thesis using f' by (simp add: line_vals_rev)
qed

subsection \<open>The merge rule\<close>

text \<open>
  Claim C1. \<open>mergeLine\<close> is the line transform of the specification: remove the zeros,
  merge each element with its right neighbour when they are equal and neither was merged
  in this pass (so of three equal values only the first pair merges), add the merged values
  to the score, pad with zeros to the original length. On a board of the configured size
  moveLeft and moveUp apply it to every row and column, moveRight and moveDown apply it to
  the reversed line and reverse the result, and the returned scoreIncrease is the sum of
  the line scores. In particular the line [2,2,4,0] becomes [4,4,0,0] with score 4.
\<close>

theorem moves_merge_lines:
  "mergeLine line = spec_mergeLine line \<and>
   mergeLine [2, 2, 4, 0] = ([4, 4, 0, 0], 4) \<and>
   (0 < a \<longrightarrow> mergeLine [a, a, a] = ([2 * a, a, 0], 2 * a)) \<and>
   (square sz b \<longrightarrow>
      (\<forall>i<sz.
         line_vals (fst (moveLeft sz b)) (row_cells sz i)
           = fst (spec_mergeLine (line_vals b (row_cells sz i))) \<and>
         line_vals (fst (moveRight sz b)) (row_cells sz i)
           = rev (fst (spec_mergeLine (rev (line_vals b (row_cells sz i))))) \<and>
         line_vals (fst (moveUp sz b)) (col_cells sz i)
           = fst (spec_mergeLine (line_vals b (col_cells sz i))) \<and>
         line_vals (fst (moveDown sz b)) (col_cells sz i)
           = rev (fst (spec_mergeLine (rev (line_vals b (col_cells sz i)))))) \<and>
      snd (moveLeft sz b) = (\<Sum>i<sz. snd (spec_mergeLine (line_vals b (row_cells sz i)))) \<and>
      snd (moveRight sz b) = (\<Sum>i<sz. snd (spec_mergeLine (rev (line_vals b (row_cells sz i))))) \<and>
      snd (moveUp sz b) = (\<Sum>i<sz. snd (spec_mergeLine (line_vals b (col_cells sz i)))) \<and>
      snd (moveDown sz b) = (\<Sum>i<sz. snd (spec_mergeLine (rev (line_vals b (col_cells sz i))))))"
proof -
  have ex: "mergeLine [2, 2, 4, 0] = ([4, 4, 0, 0], 4)"
    by (simp add: mergeLine_spec spec_mergeLine_def)
  have three: "mergeLine [a, a, a] = ([2 * a, a, 0], 2 * a)" if "0 < a"
    using that by (simp add: mergeLine_spec spec_mergeLine_def)
  have dirs: "(\<forall>i<sz.
         line_vals (fst (moveLeft sz b)) (row_cells sz i)
           = fst (spec_mergeLine (line_vals b (row_cells sz i))) \<and>
         line_vals (fst (moveRight sz b)) (row_cells sz i)
           = rev (fst (spec_mergeLine (rev (line_vals b (row_cells sz i))))) \<and>
         line_vals (fst (moveUp sz b)) (col_cells sz i)
           = fst (spec_mergeLine (line_vals b (col_cells sz i))) \<and>
         line_vals (fst (moveDown sz b)) (col_cells sz i)
           = rev (fst (spec_mergeLine (rev (line_vals b (col_cells sz i)))))) \<and>
      snd (moveLeft sz b) = (\<Sum>i<sz. snd (spec_mergeLine (line_vals b (row_cells sz i)))) \<and>
      snd (moveRight sz b) = (\<Sum>i<sz. snd (spec_mergeLine (rev (line_vals b (row_cells sz i))))) \<and>
      snd (moveUp sz b) = (\<Sum>i<sz. snd (spec_mergeLine (line_vals b (col_cells sz i)))) \<and>
      snd (moveDown sz b) = (\<Sum>i<sz. snd (spec_mergeLine (rev (line_vals b (col_cells sz i)))))"
    if sq: "square sz b"
    using moveLeft_lines [OF sq] moveRight_lines [OF sq] moveUp_lines [OF sq] moveDown_lines [OF sq]
    unfolding mergeLine_spec by blast
  show ?thesis
    using mergeLine_spec [of line] ex three dirs by blast
qed

text \<open>The row [2,2,4,0] on a 4 by 4 board, moved left.\<close>

lemma row_example_facts:
  "square 4 row_example"
  "line_vals row_example (row_cells 4 0) = [2, 2, 4, 0]"
  "line_vals row_example (row_cells 4 (Suc 0)) = [0, 0, 0, 0]"
  "line_vals row_example (row_cells 4 2) = [0, 0, 0, 0]"
  "line_vals row_example (row_cells 4 3) = [0, 0, 0, 0]"
  by (simp_all add: row_example_def board_of_def square_def line_vals_def row_cells_def
      cell_val_def upt_rec)

theorem moves_merge_lines_witness:
  "square 4 row_example \<and>
   line_vals row_example (row_cells 4 0) = [2, 2, 4, 0] \<and>
   line_vals (fst (moveLeft 4 row_example)) (row_cells 4 0) = [4, 4, 0, 0] \<and>
   snd (moveLeft 4 row_example) = 4 \<and>
   mergeLine [2, 2, 2] = ([4, 2, 0], 4)"
proof -
  note t = moves_merge_lines [of "[2, 2, 4, 0]" 2 4 row_example]
  have three: "mergeLine [2, 2, 2] = ([4, 2, 0], 4)" using t by simp
  have l: "line_vals (fst (moveLeft 4 row_example)) (row_cells 4 0)
      = fst (spec_mergeLine (line_vals row_example (row_cells 4 0)))"
    using t row_example_facts(1) by simp
  have s: "snd (moveLeft 4 row_example)
      = (\<Sum>i<4. snd (spec_mergeLine (line_vals row_example (row_cells 4 i))))"
    using t row_example_facts(1) by simp
  have four: "{..<4::nat} = {0, 1, 2, 3}" by auto
  show ?thesis
    using three row_example_facts(1,2)
    by (simp add: l s four row_example_facts spec_mergeLine_def)
qed

subsection \<open>History, move and undo\<close>

lemma saveToHistory_history:
  "m_history (saveToHistory m) \<noteq> [] \<and>
   last (m_history (saveToHistory m)) =
     \<lparr>h_board = g_board (m_state m), h_score = g_score (m_state m),
      h_moveCount = moveCount (m_state m)\<rparr>"
proof -
  let ?e = "\<lparr>h_board = g_board (m_state m), h_score = g_score (m_state m),
      h_moveCount = moveCount (m_state m)\<rparr>"
  have "tl (m_history m @ [?e]) \<noteq> [] \<and> last (tl (m_history m @ [?e])) = ?e"
    if "length (m_history m @ [?e]) > 10"
  proof (cases "m_history m")
    case Nil
    with that show ?thesis by simp
  next
    case (Cons a as)
    then show ?thesis by simp
  qed
  then show ?thesis
    by (simp add: saveToHistory_def Let_def)
qed

lemma saveToHistory_state: "m_state (saveToHistory m) = m_state m"
  and saveToHistory_config: "m_config (saveToHistory m) = m_config m"
  by (simp_all add: saveToHistory_def Let_def)

lemma checkGameStatus_fields:
  "canUndo (checkGameStatus cfg now s) = canUndo s"
  "g_board (checkGameStatus cfg now s) = g_board s"
  "g_score (checkGameStatus cfg now s) = g_score s"
  "moveCount (checkGameStatus cfg now s) = moveCount s"
  by (simp_all add: checkGameStatus_def)

lemma move_not_playing:
  "g_status (m_state m) \<noteq> G_playing \<Longrightarrow>
   move d rnd now m = (\<lparr>moved = False, scoreIncrease = 0, reached2048 = False\<rparr>, m)"
  by (simp add: move_def)

lemma moved_iff_changed:
  assumes "g_status (m_state m) = G_playing"
  shows "moved (fst (move d rnd now m)) = move_changed d m"
  using assms
  by (simp add: move_def move_changed_def Let_def saveToHistory_state saveToHistory_config
      case_prod_beta)

lemma move_accepted:
  assumes "g_status (m_state m) = G_playing" and "move_changed d m"
  shows "m_history (snd (move d rnd now m)) = m_history (saveToHistory m)"
    and "canUndo (m_state (snd (move d rnd now m)))"
  using assms
  by (simp_all add: move_def move_changed_def Let_def saveToHistory_state saveToHistory_config
      checkGameStatus_fields case_prod_beta)

lemma move_rejected:
  assumes "g_status (m_state m) = G_playing" and "\<not> move_changed d m"
  shows "m_history (snd (move d rnd now m)) = butlast (m_history (saveToHistory m))"
    and "g_score (m_state (snd (move d rnd now m))) = g_score (m_state m)"
    and "moveCount (m_state (snd (move d rnd now m))) = moveCount (m_state m)"
    and "g_status (m_state (snd (move d rnd now m))) = g_status (m_state m)"
  using assms
  by (simp_all add: move_def move_changed_def Let_def saveToHistory_state saveToHistory_config
      case_prod_beta)

text \<open>
  Claim C6. In a playing state, when move(direction) returns moved = true, an undo() called
  immediately afterwards returns true and restores the board (every cell, so every cell
  value), the score and the moveCount to their values from just before that move.
\<close>

theorem undo_after_move:
  assumes "g_status (m_state m) = G_playing" and "moved (fst (move d rnd now m))"
  shows "fst (undo (snd (move d rnd now m))) \<and>
     g_board (m_state (snd (undo (snd (move d rnd now m))))) = g_board (m_state m) \<and>
     g_score (m_state (snd (undo (snd (move d rnd now m))))) = g_score (m_state m) \<and>
     moveCount (m_state (snd (undo (snd (move d rnd now m))))) = moveCount (m_state m)"
proof -
  let ?m' = "snd (move d rnd now m)"
  have ch: "move_changed d m" using assms by (simp add: moved_iff_changed)
  have h: "m_history ?m' = m_history (saveToHistory m)" and cu: "canUndo (m_state ?m')"
    using move_accepted [OF assms(1) ch] by simp_all
  have ne: "m_history ?m' \<noteq> []" and la: "last (m_history ?m') =
     \<lparr>h_board = g_board (m_state m), h_score = g_score (m_state m),
      h_moveCount = moveCount (m_state m)\<rparr>"
    using saveToHistory_history [of m] h by simp_all
  show ?thesis
    using cu ne la by (simp add: undo_def Let_def)
qed

lemma history_after_rejected:
  assumes "g_status (m_state m) = G_playing" and "\<not> move_changed d m"
  shows "m_history (snd (move d rnd now m)) =
     (if length (m_history m) < 10 then m_history m else tl (m_history m))"
proof -
  have "butlast (tl (m_history m @ [e])) = tl (m_history m)" if "10 \<le> length (m_history m)" for e
    using that by (cases "m_history m") simp_all
  then show ?thesis
    using move_rejected(1) [OF assms] by (auto simp: saveToHistory_def Let_def)
qed

subsection \<open>The invariant of the cell values\<close>

lemma tile_ok_double: "tile_ok a \<Longrightarrow> tile_ok (a + a)"
proof -
  assume "tile_ok a"
  then consider "a = 0" | k where "0 < k" "a = 2 ^ k" by (auto simp: tile_ok_def)
  then show ?thesis
  proof cases
    case 1
    then show ?thesis by (simp add: tile_ok_def)
  next
    case 2
    then have "a + a = 2 ^ Suc k" by simp
    then show ?thesis unfolding tile_ok_def by blast
  qed
qed

lemma spec_merge_tiles:
  "\<forall>v\<in>set xs. tile_ok v \<Longrightarrow> \<forall>v\<in>set (fst (spec_merge xs)). tile_ok v"
  by (induction xs rule: spec_merge.induct) (auto simp: case_prod_beta tile_ok_double)

lemma mergeLine_tiles:
  assumes "\<forall>v\<in>set line. tile_ok v"
  shows "\<forall>v\<in>set (fst (mergeLine line)). tile_ok v"
proof -
  have "\<forall>v\<in>set (filter (\<lambda>v. v \<noteq> 0) line). tile_ok v" using assms by simp
  then have "\<forall>v\<in>set (fst (spec_merge (filter (\<lambda>v. v \<noteq> 0) line))). tile_ok v"
    by (rule spec_merge_tiles)
  moreover have "tile_ok 0" by (simp add: tile_ok_def)
  ultimately show ?thesis
    by (auto simp: mergeLine_spec spec_mergeLine_def case_prod_beta)
qed

lemma line_vals_tiles:
  assumes "board_ok sz b" and "\<forall>p\<in>set cells. fst p < sz \<and> snd p < sz"
  shows "\<forall>v\<in>set (line_vals b cells). tile_ok v"
  using assms by (auto simp: board_ok_def line_vals_def)

lemma board_ok_from_rows:
  assumes sq: "square sz b'"
    and rows: "\<forall>i<sz. \<forall>v\<in>set (line_vals b' (row_cells sz i)). tile_ok v"
  shows "board_ok sz b'"
proof -
  have "tile_ok (cell_val b' r c)" if "r < sz" "c < sz" for r c
  proof -
    have "line_vals b' (row_cells sz r) ! c = cell_val b' r c"
      using that by (simp add: line_vals_nth row_cells_facts)
    moreover have "line_vals b' (row_cells sz r) ! c \<in> set (line_vals b' (row_cells sz r))"
      using that by (intro nth_mem) (simp add: line_vals_def row_cells_facts)
    ultimately show ?thesis using rows that(1) by auto
  qed
  then show ?thesis using sq by (simp add: board_ok_def)
qed

lemma board_ok_from_cols:
  assumes sq: "square sz b'"
    and cols: "\<forall>i<sz. \<forall>v\<in>set (line_vals b' (col_cells sz i)). tile_ok v"
  shows "board_ok sz b'"
proof -
  have "tile_ok (cell_val b' r c)" if "r < sz" "c < sz" for r c
  proof -
    have "line_vals b' (col_cells sz c) ! r = cell_val b' r c"
      using that by (simp add: line_vals_nth col_cells_facts)
    moreover have "line_vals b' (col_cells sz c) ! r \<in> set (line_vals b' (col_cells sz c))"
      using that by (intro nth_mem) (simp add: line_vals_def col_cells_facts)
    ultimately show ?thesis using cols that(2) by auto
  qed
  then show ?thesis using sq by (simp add: board_ok_def)
qed

lemma row_vals_ok: "board_ok sz b \<Longrightarrow> i < sz \<Longrightarrow> \<forall>v\<in>set (line_vals b (row_cells sz i)). tile_ok v"
  by (rule line_vals_tiles) (auto simp: row_cells_facts)

lemma col_vals_ok: "board_ok sz b \<Longrightarrow> i < sz \<Longrightarrow> \<forall>v\<in>set (line_vals b (col_cells sz i)). tile_ok v"
  by (rule line_vals_tiles) (auto simp: col_cells_facts)

lemma move_direction_ok:
  assumes ok: "board_ok sz b"
  shows "board_ok sz (fst (move_direction d sz b))"
proof -
  have sq: "square sz b" using ok by (simp add: board_ok_def)
  show ?thesis
  proof (cases d)
    case Dir_left
    have "\<forall>v\<in>set (line_vals (fst (moveLeft sz b)) (row_cells sz i)). tile_ok v" if "i < sz" for i
      using moveLeft_lines [OF sq] that mergeLine_tiles [OF row_vals_ok [OF ok that]] by simp
    then show ?thesis using Dir_left moveLeft_lines [OF sq] by (simp add: board_ok_from_rows)
  next
    case Dir_right
    have "\<forall>v\<in>set (line_vals (fst (moveRight sz b)) (row_cells sz i)). tile_ok v" if "i < sz" for i
    proof -
      have "\<forall>v\<in>set (rev (line_vals b (row_cells sz i))). tile_ok v"
        using row_vals_ok [OF ok that] by simp
      from mergeLine_tiles [OF this] show ?thesis
        using moveRight_lines [OF sq] that by simp
    qed
    then show ?thesis using Dir_right moveRight_lines [OF sq] by (simp add: board_ok_from_rows)
  next
    case Dir_up
    have "\<forall>v\<in>set (line_vals (fst (moveUp sz b)) (col_cells sz i)). tile_ok v" if "i < sz" for i
      using moveUp_lines [OF sq] that mergeLine_tiles [OF col_vals_ok [OF ok that]] by simp
    then show ?thesis using Dir_up moveUp_lines [OF sq] by (simp add: board_ok_from_cols)
  next
    case Dir_down
    have "\<forall>v\<in>set (line_vals (fst (moveDown sz b)) (col_cells sz i)). tile_ok v" if "i < sz" for i
    proof -
      have "\<forall>v\<in>set (rev (line_vals b (col_cells sz i))). tile_ok v"
        using col_vals_ok [OF ok that] by simp
      from mergeLine_tiles [OF this] show ?thesis
        using moveDown_lines [OF sq] that by simp
    qed
    then show ?thesis using Dir_down moveDown_lines [OF sq] by (simp add: board_ok_from_cols)
  qed
qed

lemma upd_cell_ok:
  assumes "board_ok sz b" and "r < sz" and "c < sz" and "tile_ok (cvalue (f (b ! r ! c)))"
  shows "board_ok sz (upd_cell b r c f)"
proof -
  have sq: "square sz b" using assms(1) by (simp add: board_ok_def)
  have "tile_ok (cell_val (upd_cell b r c f) r' c')" if "r' < sz" "c' < sz" for r' c'
    using cell_val_upd_cell [OF sq assms(2,3) that] assms(1,4) that
    by (simp add: board_ok_def)
  then show ?thesis using sq by (simp add: board_ok_def square_upd_cell)
qed

lemma clearCellFlags_ok:
  assumes "board_ok sz b"
  shows "board_ok sz (clearCellFlags sz b)"
  unfolding clearCellFlags_def
proof (rule fold_invariant [where Q = "\<lambda>row. row < sz" and P = "board_ok sz"])
  show "board_ok sz b" by (rule assms)
next
  fix row assume "row \<in> set [0..<sz]" then show "row < sz" by simp
next
  fix row b' assume row: "row < sz" and ok: "board_ok sz b'"
  show "board_ok sz (fold (\<lambda>col b. upd_cell b row col (\<lambda>c. c\<lparr>isNew := False, isMerged := False\<rparr>))
                       [0..<sz] b')"
  proof (rule fold_invariant [where Q = "\<lambda>col. col < sz" and P = "board_ok sz"])
    show "board_ok sz b'" by (rule ok)
  next
    fix col assume "col \<in> set [0..<sz]" then show "col < sz" by simp
  next
    fix col b'' assume col: "col < sz" and ok'': "board_ok sz b''"
    have "tile_ok (cell_val b'' row col)" using ok'' row col by (simp add: board_ok_def)
    then show "board_ok sz (upd_cell b'' row col (\<lambda>c. c\<lparr>isNew := False, isMerged := False\<rparr>))"
      using upd_cell_ok [OF ok'' row col] by (simp add: cell_val_def)
  qed
qed

lemma getEmptyCells_range:
  "p \<in> set (getEmptyCells sz b) \<Longrightarrow> fst p < sz \<and> snd p < sz"
  by (auto simp: getEmptyCells_def)

lemma tile_ok_new: "tile_ok 2" "tile_ok 4"
proof -
  have "(2::nat) = 2 ^ 1" "(4::nat) = 2 ^ 2" by simp_all
  then show "tile_ok 2" "tile_ok 4" unfolding tile_ok_def by (metis zero_less_one, metis zero_less_numeral)
qed

lemma addRandomCell_ok:
  assumes "board_ok sz b"
  shows "board_ok sz (snd (addRandomCell sz rnd b))"
proof (cases "getEmptyCells sz b = []")
  case True
  then show ?thesis using assms by (simp add: addRandomCell_def)
next
  case False
  let ?es = "getEmptyCells sz b"
  let ?p = "?es ! (fst rnd mod length ?es)"
  have "?p \<in> set ?es" using False by (intro nth_mem) simp
  then have rng: "fst ?p < sz" "snd ?p < sz" using getEmptyCells_range by blast+
  show ?thesis
    using False upd_cell_ok [OF assms rng] tile_ok_new
    by (simp add: addRandomCell_def Let_def case_prod_beta)
qed

lemma createEmptyBoard_ok: "board_ok sz (createEmptyBoard sz)"
  by (simp add: board_ok_def square_def createEmptyBoard_def list_all_length cell_val_def tile_ok_def)

lemma saveToHistory_set:
  "set (m_history (saveToHistory m)) \<subseteq>
     insert \<lparr>h_board = g_board (m_state m), h_score = g_score (m_state m),
             h_moveCount = moveCount (m_state m)\<rparr> (set (m_history m))"
proof -
  have "set (tl xs) \<subseteq> set xs" for xs :: "GameHistoryState list" by (cases xs) auto
  from this [of "m_history m @ [\<lparr>h_board = g_board (m_state m), h_score = g_score (m_state m),
             h_moveCount = moveCount (m_state m)\<rparr>]"]
  show ?thesis by (auto simp: saveToHistory_def Let_def)
qed

lemma move_config: "m_config (snd (move d rnd now m)) = m_config m"
  by (simp add: move_def Let_def case_prod_beta saveToHistory_config)

lemma move_board:
  assumes "g_status (m_state m) = G_playing"
  shows "g_board (m_state (snd (move d rnd now m))) =
     (let sz = boardSize (m_config m);
          moved_board = fst (move_direction d sz (clearCellFlags sz (g_board (m_state m))))
      in if move_changed d m then snd (addRandomCell sz rnd moved_board) else moved_board)"
  using assms
  by (simp add: move_def move_changed_def Let_def case_prod_beta saveToHistory_state
      saveToHistory_config checkGameStatus_fields)

lemma move_history_set:
  assumes "g_status (m_state m) = G_playing"
  shows "set (m_history (snd (move d rnd now m))) \<subseteq> set (m_history (saveToHistory m))"
proof (cases "move_changed d m")
  case True
  then show ?thesis using move_accepted(1) [OF assms True] by simp
next
  case False
  show ?thesis using move_rejected(1) [OF assms False] by (auto dest: in_set_butlastD)
qed

lemma move_ok:
  assumes ok: "manager_ok m"
  shows "manager_ok (snd (move d rnd now m))"
proof (cases "g_status (m_state m) = G_playing")
  case False
  then show ?thesis using ok by (simp add: move_not_playing)
next
  case True
  let ?sz = "boardSize (m_config m)"
  have b: "board_ok ?sz (g_board (m_state m))" using ok by (simp add: manager_ok_def)
  have mb: "board_ok ?sz (fst (move_direction d ?sz (clearCellFlags ?sz (g_board (m_state m)))))"
    by (intro move_direction_ok clearCellFlags_ok b)
  have nb: "board_ok ?sz (g_board (m_state (snd (move d rnd now m))))"
    using mb addRandomCell_ok [OF mb] by (simp add: move_board [OF True] Let_def)
  have "board_ok ?sz (h_board h)" if "h \<in> set (m_history (snd (move d rnd now m)))" for h
  proof -
    have "h \<in> insert \<lparr>h_board = g_board (m_state m), h_score = g_score (m_state m),
             h_moveCount = moveCount (m_state m)\<rparr> (set (m_history m))"
      using that move_history_set [OF True] saveToHistory_set by blast
    then show ?thesis using ok b by (auto simp: manager_ok_def)
  qed
  then show ?thesis using nb by (simp add: manager_ok_def move_config)
qed

lemma undo_ok:
  assumes ok: "manager_ok m"
  shows "manager_ok (snd (undo m))"
proof (cases "\<not> canUndo (m_state m) \<or> m_history m = []")
  case True
  then show ?thesis using ok by (simp add: undo_def)
next
  case False
  then have "last (m_history m) \<in> set (m_history m)" by simp
  then show ?thesis
    using False ok by (auto simp: undo_def Let_def manager_ok_def dest: in_set_butlastD)
qed

lemma continueGame_ok: "manager_ok m \<Longrightarrow> manager_ok (continueGame m)"
  by (simp add: continueGame_def manager_ok_def)

lemma startNewGame_ok: "manager_ok (startNewGame storedScore storedTile rnd now m)"
proof -
  let ?sz = "boardSize (m_config m)"
  have "board_ok ?sz (fold (\<lambda>i b. snd (addRandomCell ?sz (rnd i) b)) [0..<initialCells (m_config m)]
                        (createEmptyBoard ?sz))"
    by (rule fold_invariant [where Q = "\<lambda>_. True" and P = "board_ok ?sz"])
      (simp_all add: createEmptyBoard_ok addRandomCell_ok)
  then show ?thesis
    by (simp add: startNewGame_def Let_def manager_ok_def createInitialState_def)
qed

lemma reachable_ok: "reachable m \<Longrightarrow> manager_ok m"
  by (induction rule: reachable.induct)
    (simp_all add: startNewGame_ok move_ok undo_ok continueGame_ok)

text \<open>
  Claim C8. In every state reachable from startNewGame by moves, undos, continueGame and
  restarts, every non-zero cell value of the board is a power of two that is at least 2.
\<close>

theorem tiles_power_of_two:
  assumes "reachable m"
  shows "\<forall>row\<in>set (g_board (m_state m)). \<forall>cell\<in>set row.
           cvalue cell \<noteq> 0 \<longrightarrow> (\<exists>k. 1 \<le> k \<and> cvalue cell = 2 ^ k)"
proof (intro ballI impI)
  fix row cell
  assume row: "row \<in> set (g_board (m_state m))" and cell: "cell \<in> set row"
    and nz: "cvalue cell \<noteq> 0"
  let ?sz = "boardSize (m_config m)"
  let ?b = "g_board (m_state m)"
  have ok: "board_ok ?sz ?b" using reachable_ok [OF assms] by (simp add: manager_ok_def)
  then have sq: "square ?sz ?b" by (simp add: board_ok_def)
  obtain r where r: "r < length ?b" "?b ! r = row" using row by (auto simp: in_set_conv_nth)
  obtain c where c: "c < length row" "row ! c = cell" using cell by (auto simp: in_set_conv_nth)
  have "r < ?sz" "c < ?sz" using r c square_lengths [OF sq] by auto
  then have "tile_ok (cell_val ?b r c)" using ok by (simp add: board_ok_def)
  then have "tile_ok (cvalue cell)" using r c by (simp add: cell_val_def)
  then obtain k where "0 < k" "cvalue cell = 2 ^ k" using nz by (auto simp: tile_ok_def)
  then show "\<exists>k. 1 \<le> k \<and> cvalue cell = 2 ^ k" by (intro exI [of _ k]) simp
qed

subsection \<open>Example games and the commands in terminal states\<close>

lemma game_start_facts:
  "g_status (m_state game_start) = G_playing \<and> moved (fst (move Dir_left (0, True) 1 game_start))"
  by code_simp

lemma game_ten_facts:
  "(let m = game_ten in
      g_status (m_state m) = G_playing \<and> length (m_history m) = 10 \<and>
      \<not> moved (fst (move Dir_left (0, True) 11 m)) \<and>
      map (map cvalue) (g_board (m_state m)) = [[2, 4, 2, 0], [0, 0, 0, 0], [0, 0, 0, 0], [2, 4, 8, 2]])"
  by code_simp

lemma small_lost_facts:
  "(let m = small_lost in
      g_status (m_state m) = G_lost \<and> canUndo (m_state m) \<and> length (m_history m) = 2 \<and>
      moveCount (m_state m) = 2 \<and>
      map (map cvalue) (g_board (m_state m)) = [[4, 2], [2, 4]] \<and>
      map (map cvalue) (h_board (last (m_history m))) = [[2, 0], [2, 4]] \<and>
      h_moveCount (last (m_history m)) = 1)"
  by code_simp

lemma reachable_plays: "reachable m \<Longrightarrow> reachable (plays ds m)"
  unfolding plays_def by (induction ds arbitrary: m) (simp_all add: reach_move)

lemma reachable_examples:
  "reachable game_start" "reachable game_ten" "reachable small_lost"
  unfolding game_start_def game_ten_def small_lost_def small_start_def
  by (intro reachable_plays reach_move reach_start)+

text \<open>The first move of \<open>game_start\<close> (to the left: [2,2,0,0] becomes [4,0,0,0]), then undo.\<close>

theorem undo_after_move_witness:
  "g_status (m_state game_start) = G_playing \<and>
   moved (fst (move Dir_left (0, True) 1 game_start)) \<and>
   fst (undo (snd (move Dir_left (0, True) 1 game_start))) \<and>
   g_board (m_state (snd (undo (snd (move Dir_left (0, True) 1 game_start)))))
     = g_board (m_state game_start) \<and>
   g_score (m_state (snd (undo (snd (move Dir_left (0, True) 1 game_start)))))
     = g_score (m_state game_start) \<and>
   moveCount (m_state (snd (undo (snd (move Dir_left (0, True) 1 game_start)))))
     = moveCount (m_state game_start)"
proof -
  have p: "g_status (m_state game_start) = G_playing"
    and mv: "moved (fst (move Dir_left (0, True) 1 game_start))"
    using game_start_facts by simp_all
  show ?thesis using undo_after_move [OF p mv] p mv by simp
qed

text \<open>
  Claim C5, as the code behaves. A move in a playing state that leaves every cell value
  unchanged returns moved = false and leaves the score and the moveCount unchanged. The
  history stack is unchanged when it held fewer than 10 entries; when it held 10, the
  entry pushed by the move evicts the oldest one before it is popped again, so the stack
  is left with the 9 newest entries.
\<close>

theorem rejected_move_history:
  assumes "g_status (m_state m) = G_playing" and "\<not> moved (fst (move d rnd now m))"
  shows "g_score (m_state (snd (move d rnd now m))) = g_score (m_state m) \<and>
     moveCount (m_state (snd (move d rnd now m))) = moveCount (m_state m) \<and>
     m_history (snd (move d rnd now m)) =
       (if length (m_history m) < 10 then m_history m else tl (m_history m))"
proof -
  have nc: "\<not> move_changed d m" using assms by (simp add: moved_iff_changed)
  show ?thesis
    using move_rejected(2,3) [OF assms(1) nc] history_after_rejected [OF assms(1) nc] by simp
qed

text \<open>
  After the ten accepted moves of \<open>game_ten\<close> the board is [[2,4,2,0],[0,0,0,0],[0,0,0,0],
  [2,4,8,2]]: a move to the left changes nothing and leaves 9 of the 10 history entries.
\<close>

theorem rejected_move_history_witness:
  "g_status (m_state game_ten) = G_playing \<and>
   \<not> moved (fst (move Dir_left (0, True) 11 game_ten)) \<and>
   length (m_history game_ten) = 10 \<and>
   m_history (snd (move Dir_left (0, True) 11 game_ten)) = tl (m_history game_ten) \<and>
   length (m_history (snd (move Dir_left (0, True) 11 game_ten))) = 9"
proof -
  have p: "g_status (m_state game_ten) = G_playing"
    and nm: "\<not> moved (fst (move Dir_left (0, True) 11 game_ten))"
    and len: "length (m_history game_ten) = 10"
    using game_ten_facts by (simp_all add: Let_def)
  show ?thesis using rejected_move_history [OF p nm] p nm len by simp
qed

lemma small_undone_facts:
  "canMove (boardSize (m_config small_lost)) (g_board (m_state (snd (undo small_lost))))"
  by code_simp

text \<open>
  Claim C4, as the code behaves. In a state whose status is won or lost, move(direction) is
  refused for every direction: it returns moved = false and leaves the whole manager
  unchanged. undo() has no guard on the status, unlike move(): whenever canUndo holds and
  the history is not empty it returns true and overwrites board, score and moveCount with
  the newest history entry, also in a won or lost state. The status stays won or lost, so
  on the board that undo() put back every move is still refused.
\<close>

theorem undo_in_terminal_state:
  assumes "g_status (m_state m) = G_won \<or> g_status (m_state m) = G_lost"
  shows "move d rnd now m = (\<lparr>moved = False, scoreIncrease = 0, reached2048 = False\<rparr>, m) \<and>
     (canUndo (m_state m) \<and> m_history m \<noteq> [] \<longrightarrow>
        fst (undo m) \<and>
        g_board (m_state (snd (undo m))) = h_board (last (m_history m)) \<and>
        g_score (m_state (snd (undo m))) = h_score (last (m_history m)) \<and>
        moveCount (m_state (snd (undo m))) = h_moveCount (last (m_history m)) \<and>
        g_status (m_state (snd (undo m))) = g_status (m_state m) \<and>
        move d rnd now (snd (undo m))
          = (\<lparr>moved = False, scoreIncrease = 0, reached2048 = False\<rparr>, snd (undo m)))"
proof -
  have np: "g_status (m_state m) \<noteq> G_playing" using assms by auto
  have mv: "move d rnd now m = (\<lparr>moved = False, scoreIncrease = 0, reached2048 = False\<rparr>, m)"
    using np by (rule move_not_playing)
  have st: "g_status (m_state (snd (undo m))) = g_status (m_state m)"
    by (simp add: undo_def Let_def)
  have mv': "move d rnd now (snd (undo m))
      = (\<lparr>moved = False, scoreIncrease = 0, reached2048 = False\<rparr>, snd (undo m))"
    using np st by (intro move_not_playing) simp
  show ?thesis
    unfolding mv mv' st by (simp add: undo_def Let_def)
qed

text \<open>
  The lost game \<open>small_lost\<close> (board [[4,2],[2,4]] after two moves): a move is refused, but
  undo() returns true and puts the board back to [[2,0],[2,4]] and moveCount to 1. The
  status is still lost: the board has an empty cell, and a move is refused all the same.
\<close>

theorem undo_in_terminal_state_witness:
  "reachable small_lost \<and> g_status (m_state small_lost) = G_lost \<and>
   canUndo (m_state small_lost) \<and> m_history small_lost \<noteq> [] \<and>
   move Dir_left (0, True) 3 small_lost
     = (\<lparr>moved = False, scoreIncrease = 0, reached2048 = False\<rparr>, small_lost) \<and>
   fst (undo small_lost) \<and>
   map (map cvalue) (g_board (m_state small_lost)) = [[4, 2], [2, 4]] \<and>
   map (map cvalue) (g_board (m_state (snd (undo small_lost)))) = [[2, 0], [2, 4]] \<and>
   moveCount (m_state small_lost) = 2 \<and>
   moveCount (m_state (snd (undo small_lost))) = 1 \<and>
   g_status (m_state (snd (undo small_lost))) = G_lost \<and>
   canMove (boardSize (m_config small_lost)) (g_board (m_state (snd (undo small_lost)))) \<and>
   move Dir_left (0, True) 3 (snd (undo small_lost))
     = (\<lparr>moved = False, scoreIncrease = 0, reached2048 = False\<rparr>, snd (undo small_lost))"
proof -
  note f = small_lost_facts [unfolded Let_def]
  have st: "g_status (m_state small_lost) = G_lost" using f by simp
  have cu: "canUndo (m_state small_lost)" using f by simp
  have ne: "m_history small_lost \<noteq> []" using f by auto
  have t: "g_status (m_state small_lost) = G_won \<or> g_status (m_state small_lost) = G_lost"
    using st by simp
  show ?thesis
    using undo_in_terminal_state [OF t, of Dir_left "(0, True)" 3] st cu ne f
      small_undone_facts reachable_examples(3)
    by simp
qed

text \<open>The invariant on \<open>game_ten\<close>, whose cell (3,2) holds 8.\<close>

theorem tiles_power_of_two_witness:
  "reachable game_ten \<and>
   cvalue (g_board (m_state game_ten) ! 3 ! 2) = 8 \<and>
   (\<exists>k. 1 \<le> k \<and> cvalue (g_board (m_state game_ten) ! 3 ! 2) = 2 ^ k)"
proof -
  let ?b = "g_board (m_state game_ten)"
  have vals: "map (map cvalue) ?b = [[2, 4, 2, 0], [0, 0, 0, 0], [0, 0, 0, 0], [2, 4, 8, 2]]"
    using game_ten_facts by (simp add: Let_def)
  have lb: "length ?b = 4" using arg_cong [OF vals, of length] by simp
  have r3: "map cvalue (?b ! 3) = [2, 4, 8, 2]"
    using arg_cong [OF vals, of "\<lambda>l. l ! 3"] lb by simp
  have lr: "length (?b ! 3) = 4" using arg_cong [OF r3, of length] by simp
  have v: "cvalue (?b ! 3 ! 2) = 8"
    using arg_cong [OF r3, of "\<lambda>l. l ! 2"] lr by simp
  have row: "?b ! 3 \<in> set ?b" using lb by simp
  have cell: "?b ! 3 ! 2 \<in> set (?b ! 3)" using lr by simp
  have "cvalue (?b ! 3 ! 2) \<noteq> 0" using v by simp
  then have "\<exists>k. 1 \<le> k \<and> cvalue (?b ! 3 ! 2) = 2 ^ k"
    using tiles_power_of_two [OF reachable_examples(2)] row cell by blast
  then show ?thesis using reachable_examples(2) v by simp
qed

section \<open>Minefield: proofs\<close>


lemma wf_lengths:
  "mine_board_wf rs cs b \<Longrightarrow> length b = rs"
  "mine_board_wf rs cs b \<Longrightarrow> i < rs \<Longrightarrow> length (b ! i) = cs"
  by (simp_all add: mine_board_wf_def list_all_length)

lemma board_cell_wf:
  assumes "mine_board_wf rs cs b"
  shows "board_cell b r c = (if in_board rs cs (r, c) then Some (b ! nat r ! nat c) else None)"
  using wf_lengths [OF assms]
  by (auto simp: board_cell_def in_board_def nat_less_iff)

lemma upd_mine_cell_lengths:
  "length (upd_mine_cell b r c f) = length b"
  "n < length b \<Longrightarrow> length (upd_mine_cell b r c f ! n) = length (b ! n)"
  by (cases "n = nat r"; simp add: upd_mine_cell_def)+

lemma upd_mine_cell_wf: "mine_board_wf rs cs (upd_mine_cell b r c f) = mine_board_wf rs cs b"
  by (simp add: mine_board_wf_def list_all_length upd_mine_cell_lengths cong: conj_cong)

lemma board_cell_upd:
  assumes wf: "mine_board_wf rs cs b" and inb: "in_board rs cs (r, c)"
  shows "board_cell (upd_mine_cell b r c f) r' c' =
     (if r' = r \<and> c' = c then Some (f (b ! nat r ! nat c)) else board_cell b r' c')"
proof -
  have wf': "mine_board_wf rs cs (upd_mine_cell b r c f)" using wf by (simp add: upd_mine_cell_wf)
  have r: "nat r < rs" "nat c < cs" "0 \<le> r" "0 \<le> c" using inb by (auto simp: in_board_def)
  show ?thesis
  proof (cases "in_board rs cs (r', c')")
    case False
    then have "\<not> (r' = r \<and> c' = c)" using inb by auto
    then show ?thesis using False by (simp add: board_cell_wf [OF wf] board_cell_wf [OF wf'])
  next
    case True
    then have r': "nat r' < rs" "nat c' < cs" "0 \<le> r'" "0 \<le> c'" by (auto simp: in_board_def)
    have eqr: "nat r' = nat r \<longleftrightarrow> r' = r" and eqc: "nat c' = nat c \<longleftrightarrow> c' = c"
      using r r' by auto
    show ?thesis
      unfolding board_cell_wf [OF wf] board_cell_wf [OF wf']
      using True inb r r' wf_lengths [OF wf]
      by (auto simp: upd_mine_cell_def nth_list_update eqr eqc)
  qed
qed

lemma createMineState_wf: "ms_wf (createMineState config)"
  by (simp add: ms_wf_def mine_board_wf_def createMineState_def createMineBoard_def list_all_length)


subsection \<open>Cells related place by place\<close>

lemma cells_rel_refl: "(\<And>x. R x x) \<Longrightarrow> cells_rel R b b"
  by (simp add: cells_rel_def list_all2_refl)

lemma cells_rel_trans:
  assumes tr: "\<And>x y z. R x y \<Longrightarrow> R y z \<Longrightarrow> R x z"
    and ab: "cells_rel R a b" and bc: "cells_rel R b c"
  shows "cells_rel R a c"
proof -
  have row: "list_all2 R x z" if "list_all2 R x y" "list_all2 R y z" for x y z
    using that(1) that(2) by (rule list_all2_trans [rotated]) (rule tr)
  show ?thesis
    using ab bc unfolding cells_rel_def by (rule list_all2_trans [rotated]) (rule row)
qed

lemma cells_rel_upd:
  assumes "\<And>x. R x x" and "\<And>x. R x (f x)"
  shows "cells_rel R b (upd_mine_cell b r c f)"
proof -
  have row: "list_all2 R (b ! nat r) ((b ! nat r)[nat c := f (b ! nat r ! nat c)])"
    by (cases "nat c < length (b ! nat r)")
      (simp_all add: list_all2_conv_all_nth nth_list_update assms)
  show ?thesis
    unfolding cells_rel_def upd_mine_cell_def
    by (cases "nat r < length b")
      (simp_all add: list_all2_conv_all_nth [of "list_all2 R"] nth_list_update row
        list_all2_refl assms(1))
qed

lemma cells_rel_map:
  assumes "\<And>x. R x (f x)"
  shows "cells_rel R b (map (map f) b)"
  by (simp add: cells_rel_def list_all2_conv_all_nth assms)

lemma cells_rel_board_cell:
  assumes "cells_rel R b b'"
  shows "rel_option R (board_cell b r c) (board_cell b' r c)"
proof -
  have len: "length b' = length b" using assms by (simp add: cells_rel_def list_all2_lengthD)
  have rows: "list_all2 R (b ! i) (b' ! i)" if "i < length b" for i
    using assms that by (simp add: cells_rel_def list_all2_nthD)
  show ?thesis
  proof (cases "0 \<le> r \<and> nat r < length b")
    case False
    then show ?thesis using len by (auto simp: board_cell_def)
  next
    case True
    then have l2: "length (b' ! nat r) = length (b ! nat r)"
      using rows [of "nat r"] by (simp add: list_all2_lengthD)
    show ?thesis
      using True len l2 rows [of "nat r"]
      by (auto simp: board_cell_def list_all2_nthD)
  qed
qed

lemma cells_rel_wf:
  assumes "cells_rel R b b'"
  shows "mine_board_wf rs cs b' = mine_board_wf rs cs b"
proof -
  have len: "length b' = length b" using assms by (simp add: cells_rel_def list_all2_lengthD)
  have "list_all2 R (b ! i) (b' ! i)" if "i < length b" for i
    using assms that by (simp add: cells_rel_def list_all2_nthD)
  then have "length (b' ! i) = length (b ! i)" if "i < length b" for i
    using that list_all2_lengthD [of R "b ! i" "b' ! i"] by simp
  then show ?thesis
    using len by (auto simp: mine_board_wf_def list_all_length)
qed

lemma mines_kept_refl: "mines_kept b b"
  unfolding mines_kept_def by (rule cells_rel_refl) simp

lemma mines_kept_trans: "mines_kept a b \<Longrightarrow> mines_kept b c \<Longrightarrow> mines_kept a c"
  unfolding mines_kept_def by (rule cells_rel_trans [where b = b]) auto

lemma mines_kept_is_mine_at: "mines_kept b b' \<Longrightarrow> is_mine_at b' p = is_mine_at b p"
  using cells_rel_board_cell [of "\<lambda>x y. isMine y = isMine x" b b' "fst p" "snd p"]
  by (auto simp: mines_kept_def is_mine_at_def elim: option.rel_cases)

lemma mines_kept_count: "mines_kept b b' \<Longrightarrow> mine_count rs cs b' = mine_count rs cs b"
  by (simp add: mine_count_def mines_kept_is_mine_at cong: filter_cong)


lemma revealNeighbors_rel:
  assumes refl: "\<And>s. R s s" and trans: "\<And>a b c. R a b \<Longrightarrow> R b c \<Longrightarrow> R a c"
    and cell: "\<And>row col s r s'. revealCell fuel rnd now row col s = Some (r, s') \<Longrightarrow> R s s'"
  shows "revealNeighbors fuel rnd now ps s = Some (e, s') \<Longrightarrow> R s s'"
proof (induction ps arbitrary: s)
  case Nil
  then show ?case by (simp add: refl)
next
  case (Cons p rest)
  show ?case
  proof (cases "board_cell (ms_board s) (fst p) (snd p)")
    case None
    then show ?thesis using Cons.prems by (simp add: refl)
  next
    case (Some nb)
    show ?thesis
    proof (cases "cstate nb = Hidden")
      case False
      then show ?thesis using Cons.prems Some Cons.IH [of s] by simp
    next
      case True
      show ?thesis
      proof (cases "revealCell fuel rnd now (fst p) (snd p) s")
        case None
        then show ?thesis using Cons.prems Some True by simp
      next
        case (Some a)
        obtain r s1 where a: "a = (r, s1)" by (cases a)
        have r1: "R s s1" using cell Some a by simp
        show ?thesis
        proof (cases r)
          case (Inl err)
          then show ?thesis using Cons.prems \<open>board_cell (ms_board s) (fst p) (snd p) = Some nb\<close>
              True Some a r1 by simp
        next
          case (Inr b)
          then have "revealNeighbors fuel rnd now rest s1 = Some (e, s')"
            using Cons.prems \<open>board_cell (ms_board s) (fst p) (snd p) = Some nb\<close> True Some a
            by simp
          then show ?thesis using Cons.IH r1 trans by blast
        qed
      qed
    qed
  qed
qed

lemma revealCell_rel:
  assumes refl: "\<And>s. R s s" and trans: "\<And>a b c. R a b \<Longrightarrow> R b c \<Longrightarrow> R a c"
    and init: "\<And>row col s. R s (initializeGame rnd now row col s)"
    and upd: "\<And>row col s. R s (s\<lparr>ms_board := upd_mine_cell (ms_board s) row col
                                        (\<lambda>c. c\<lparr>cstate := Revealed\<rparr>),
                                    revealedCells := revealedCells s + 1\<rparr>)"
    and lost: "\<And>s. R s (revealAllMines (s\<lparr>ms_status := M_lost, ms_endTime := Some now\<rparr>))"
    and win: "\<And>s. R s (checkWinCondition now s)"
  shows "revealCell fuel rnd now row col s = Some (r, s') \<Longrightarrow> R s s'"
proof (induction fuel arbitrary: row col s r s')
  case 0
  then show ?case by simp
next
  case (Suc fuel)
  have nb: "R s0 s0'" if "revealNeighbors fuel rnd now ps s0 = Some (e, s0')" for ps s0 e s0'
    using refl trans Suc.IH that by (rule revealNeighbors_rel [where R = R])
  show ?case
  proof (cases "ms_status s = M_won \<or> ms_status s = M_lost")
    case True
    then show ?thesis using Suc.prems by (auto simp: refl)
  next
    case False
    show ?thesis
    proof (cases "board_cell (ms_board s) row col")
      case None
      then show ?thesis using Suc.prems False by (auto simp: refl)
    next
      case (Some cell0)
      show ?thesis
      proof (cases "cstate cell0 = Hidden")
        case nh: False
        then show ?thesis using Suc.prems False Some by (auto simp: refl)
      next
        case True
        define s1 where "s1 = (if ms_status s = M_idle then initializeGame rnd now row col s else s)"
        define s2 where "s2 = s1\<lparr>ms_board := upd_mine_cell (ms_board s1) row col
                                           (\<lambda>c. c\<lparr>cstate := Revealed\<rparr>),
                            revealedCells := revealedCells s1 + 1\<rparr>"
        have r1: "R s s1" unfolding s1_def by (simp add: refl init)
        have r2: "R s s2" unfolding s2_def by (rule trans [OF r1 upd])
        have eq: "revealCell (Suc fuel) rnd now row col s =
          (if isMine (ms_board s2 ! nat row ! nat col)
           then Some (Inr True, revealAllMines (s2\<lparr>ms_status := M_lost, ms_endTime := Some now\<rparr>))
           else if neighborMines (ms_board s2 ! nat row ! nat col) = 0
           then (case revealNeighbors fuel rnd now (neighbor_coords (ms_config s2) row col) s2 of
                   None \<Rightarrow> None
                 | Some (Some e, s3) \<Rightarrow> Some (Inl e, s3)
                 | Some (None, s3) \<Rightarrow> Some (Inr True, checkWinCondition now s3))
           else Some (Inr True, checkWinCondition now s2))"
          using False Some True by (simp add: Let_def s1_def s2_def)
        show ?thesis
        proof (cases "isMine (ms_board s2 ! nat row ! nat col)")
          case m: True
          then show ?thesis using Suc.prems trans [OF r2 lost] unfolding eq by auto
        next
          case m: False
          show ?thesis
          proof (cases "neighborMines (ms_board s2 ! nat row ! nat col) = 0")
            case z: False
            then show ?thesis using Suc.prems m trans [OF r2 win] unfolding eq by auto
          next
            case z: True
            show ?thesis
            proof (cases "revealNeighbors fuel rnd now (neighbor_coords (ms_config s2) row col) s2")
              case None
              then show ?thesis using Suc.prems m z unfolding eq by simp
            next
              case (Some a)
              obtain e s3 where a: "a = (e, s3)" by (cases a)
              have "R s2 s3" using Some a by (intro nb) simp
              then have r3: "R s s3" using r2 trans by blast
              show ?thesis
              proof (cases e)
                case None
                then show ?thesis using Suc.prems m z Some a trans [OF r3 win] unfolding eq by auto
              next
                case (Some err)
                then show ?thesis
                  using Suc.prems m z \<open>revealNeighbors fuel rnd now (neighbor_coords (ms_config s2) row col) s2 = Some a\<close> a r3
                  unfolding eq by auto
              qed
            qed
          qed
        qed
      qed
    qed
  qed
qed


lemma cell_step_refl: "cell_step fx x x"
  by (simp add: cell_step_def)

lemma cell_step_trans: "cell_step fx x y \<Longrightarrow> cell_step fx y z \<Longrightarrow> cell_step fx x z"
  by (auto simp: cell_step_def)

lemma cell_step_weaken: "cell_step True x y \<Longrightarrow> cell_step fx x y"
  by (simp add: cell_step_def)

lemma cells_rel_mono:
  assumes "cells_rel R b b'" and "\<And>x y. R x y \<Longrightarrow> S x y"
  shows "cells_rel S b b'"
proof -
  have "list_all2 S x y" if "list_all2 R x y" for x y
    using that by (rule list_all2_mono) (rule assms(2))
  then show ?thesis
    using assms(1) unfolding cells_rel_def by (rule list_all2_mono [rotated])
qed

lemma fold_upd_rel:
  assumes refl: "\<And>x. R x x" and trans: "\<And>x y z. R x y \<Longrightarrow> R y z \<Longrightarrow> R x z"
    and f: "\<And>x. R x (f x)"
  shows "cells_rel R b (fold (\<lambda>p b. upd_mine_cell b (fst p) (snd p) f) ps b)"
proof (induction ps arbitrary: b)
  case Nil
  show ?case by (simp add: cells_rel_refl refl)
next
  case (Cons p ps)
  have one: "cells_rel R b (upd_mine_cell b (fst p) (snd p) f)"
    by (rule cells_rel_upd) (rule refl, rule f)
  show ?case
    using cells_rel_trans [where R = R, OF trans one Cons.IH] by simp
qed

lemma placeMines_board:
  assumes refl: "\<And>x. R x x" and trans: "\<And>x y z. R x y \<Longrightarrow> R y z \<Longrightarrow> R x z"
    and f: "\<And>x. R x (x\<lparr>isMine := True\<rparr>)"
  shows "cells_rel R (ms_board s) (ms_board (placeMines rnd r c s))"
  unfolding placeMines_def Let_def
  using fold_upd_rel [where R = R and f = "\<lambda>c. c\<lparr>isMine := True\<rparr>", OF refl trans f]
  by simp

lemma placeMines_fields:
  "placeMines rnd r c s = s\<lparr>ms_board := ms_board (placeMines rnd r c s)\<rparr>"
  by (simp add: placeMines_def Let_def)

lemma calc_fold:
  assumes refl: "\<And>x. R x x" and trans: "\<And>x y z. R x y \<Longrightarrow> R y z \<Longrightarrow> R x z"
    and f: "\<And>x n. R x (x\<lparr>neighborMines := n\<rparr>)"
  defines "g \<equiv> (\<lambda>p s'. if \<not> is_mine_at (ms_board s') p
                   then s'\<lparr>ms_board := upd_mine_cell (ms_board s') (fst p) (snd p)
                              (\<lambda>c. c\<lparr>neighborMines := countNeighborMines s' (fst p) (snd p)\<rparr>)\<rparr>
                   else s')"
  shows "fold g ps s = s\<lparr>ms_board := ms_board (fold g ps s)\<rparr> \<and>
         cells_rel R (ms_board s) (ms_board (fold g ps s))"
proof (induction ps arbitrary: s)
  case Nil
  show ?case by (simp add: cells_rel_refl refl)
next
  case (Cons p ps)
  have one: "g p s = s\<lparr>ms_board := ms_board (g p s)\<rparr>"
    and rel: "cells_rel R (ms_board s) (ms_board (g p s))"
    unfolding g_def by (simp_all add: cells_rel_refl refl cells_rel_upd f)
  have ih: "fold g ps (g p s) = (g p s)\<lparr>ms_board := ms_board (fold g ps (g p s))\<rparr>"
    and ihr: "cells_rel R (ms_board (g p s)) (ms_board (fold g ps (g p s)))"
    using Cons.IH [of "g p s"] by simp_all
  have "fold g ps (g p s) = s\<lparr>ms_board := ms_board (fold g ps (g p s))\<rparr>"
    by (subst ih, subst one) simp
  then show ?case
    using cells_rel_trans [where R = R, OF trans rel ihr] by simp
qed

lemma calculateNeighborMines_board:
  assumes refl: "\<And>x. R x x" and trans: "\<And>x y z. R x y \<Longrightarrow> R y z \<Longrightarrow> R x z"
    and f: "\<And>x n. R x (x\<lparr>neighborMines := n\<rparr>)"
  shows "calculateNeighborMines s = s\<lparr>ms_board := ms_board (calculateNeighborMines s)\<rparr>"
    and "cells_rel R (ms_board s) (ms_board (calculateNeighborMines s))"
proof -
  have both: "calculateNeighborMines s = s\<lparr>ms_board := ms_board (calculateNeighborMines s)\<rparr> \<and>
      cells_rel R (ms_board s) (ms_board (calculateNeighborMines s))"
    unfolding calculateNeighborMines_def using refl trans f by (rule calc_fold)
  show "calculateNeighborMines s = s\<lparr>ms_board := ms_board (calculateNeighborMines s)\<rparr>"
    using both by (rule conjunct1)
  show "cells_rel R (ms_board s) (ms_board (calculateNeighborMines s))"
    using both by (rule conjunct2)
qed

lemma initializeGame_board:
  assumes refl: "\<And>x. R x x" and trans: "\<And>x y z. R x y \<Longrightarrow> R y z \<Longrightarrow> R x z"
    and f: "\<And>x n. R x (x\<lparr>neighborMines := n\<rparr>)" and g: "\<And>x. R x (x\<lparr>isMine := True\<rparr>)"
  shows "cells_rel R (ms_board s) (ms_board (initializeGame rnd now r c s))"
proof (cases "ms_status s = M_idle")
  case False
  then show ?thesis by (simp add: initializeGame_def cells_rel_refl refl)
next
  case True
  have a: "cells_rel R (ms_board s) (ms_board (placeMines rnd r c s))"
    by (rule placeMines_board) (rule refl, erule (1) trans, rule g)
  have b: "cells_rel R (ms_board (placeMines rnd r c s))
      (ms_board (calculateNeighborMines (placeMines rnd r c s)))"
    by (rule calculateNeighborMines_board(2)) (rule refl, erule (1) trans, rule f)
  show ?thesis
    using True cells_rel_trans [where R = R, OF trans a b] by (simp add: initializeGame_def)
qed

lemma initializeGame_config: "ms_config (initializeGame rnd now r c s) = ms_config s"
proof -
  have "ms_config (calculateNeighborMines (placeMines rnd r c s)) = ms_config s"
    by (subst calculateNeighborMines_board(1) [where R = "\<lambda>x y. True"], simp_all)
       (subst placeMines_fields, simp)
  then show ?thesis by (simp add: initializeGame_def)
qed

lemma initializeGame_status:
  "ms_status (initializeGame rnd now r c s) = (if ms_status s = M_idle then M_playing else ms_status s)"
  by (simp add: initializeGame_def)

lemma initializeGame_not_idle: "ms_status s \<noteq> M_idle \<Longrightarrow> initializeGame rnd now r c s = s"
  by (simp add: initializeGame_def)

lemma state_step_refl: "state_step s s"
  by (simp add: state_step_def cells_rel_refl cell_step_refl)

lemma state_step_trans:
  assumes "state_step a b" and "state_step b c"
  shows "state_step a c"
proof -
  have bc: "cells_rel (cell_step (ms_status a \<noteq> M_idle)) (ms_board b) (ms_board c)"
  proof (cases "ms_status a = M_idle")
    case True
    have "cells_rel (cell_step False) (ms_board b) (ms_board c)"
      using assms(2) unfolding state_step_def
      by (elim conjE cells_rel_mono) (simp add: cell_step_def)
    then show ?thesis using True by simp
  next
    case False
    then have "ms_status b \<noteq> M_idle" using assms(1) by (simp add: state_step_def)
    then show ?thesis using assms(2) False by (simp add: state_step_def)
  qed
  have "cells_rel (cell_step (ms_status a \<noteq> M_idle)) (ms_board a) (ms_board c)"
    by (rule cells_rel_trans [where b = "ms_board b"])
       (erule (1) cell_step_trans, use assms(1) in \<open>simp add: state_step_def\<close>, rule bc)
  then show ?thesis using assms by (simp add: state_step_def)
qed

lemma state_step_init: "state_step s (initializeGame rnd now r c s)"
proof (cases "ms_status s = M_idle")
  case False
  then show ?thesis by (simp add: initializeGame_not_idle state_step_refl)
next
  case True
  have "cells_rel (cell_step False) (ms_board s) (ms_board (initializeGame rnd now r c s))"
    by (rule initializeGame_board)
       (simp_all add: cell_step_def, metis)
  then show ?thesis using True by (simp add: state_step_def initializeGame_config)
qed

lemma state_step_upd:
  "state_step s (s\<lparr>ms_board := upd_mine_cell (ms_board s) row col (\<lambda>c. c\<lparr>cstate := Revealed\<rparr>),
                  revealedCells := revealedCells s + 1\<rparr>)"
  by (simp add: state_step_def cells_rel_upd cell_step_def)

lemma state_step_lost:
  "state_step s (revealAllMines (s\<lparr>ms_status := M_lost, ms_endTime := Some now\<rparr>))"
  by (simp add: state_step_def revealAllMines_def cells_rel_map cell_step_def)

lemma state_step_win: "state_step s (checkWinCondition now s)"
  by (simp add: state_step_def checkWinCondition_def calculateScore_def Let_def cells_rel_refl
      cell_step_refl)

lemma revealCell_step:
  "revealCell fuel rnd now row col s = Some (r, s') \<Longrightarrow> state_step s s'"
  by (rule revealCell_rel [where R = state_step])
     (rule state_step_refl, erule (1) state_step_trans, rule state_step_init,
      rule state_step_upd, rule state_step_lost, rule state_step_win, assumption)

lemma revealNeighbors_step:
  "revealNeighbors fuel rnd now ps s = Some (e, s') \<Longrightarrow> state_step s s'"
  by (rule revealNeighbors_rel [where R = state_step])
     (rule state_step_refl, erule (1) state_step_trans, erule revealCell_step, assumption)

lemma toggleFlag_wf: "ms_wf (snd (toggleFlag row col s)) = ms_wf s"
  by (simp add: toggleFlag_def ms_wf_def upd_mine_cell_wf split: option.splits)

lemma state_step_wf:
  assumes "state_step s s'"
  shows "ms_wf s' = ms_wf s"
proof -
  have c: "cells_rel (cell_step (ms_status s \<noteq> M_idle)) (ms_board s) (ms_board s')"
    and cfg: "ms_config s' = ms_config s"
    using assms by (simp_all add: state_step_def)
  show ?thesis unfolding ms_wf_def cfg by (rule cells_rel_wf [OF c])
qed

lemma ms_reachable_wf: "ms_reachable s \<Longrightarrow> ms_wf s"
proof (induction rule: ms_reachable.induct)
  case (mreach_new config)
  show ?case by (rule createMineState_wf)
next
  case (mreach_reveal s fuel rnd now row col r s')
  then show ?case using state_step_wf [OF revealCell_step] by blast
next
  case (mreach_flag s row col)
  then show ?case by (simp add: toggleFlag_wf)
qed


text \<open>
  Claim C3, amended. \<open>revealCell\<close> has no check of the coordinates (nor has any other
  command of the game): for a reachable state and coordinates outside the board, it
  returns false and leaves the state unchanged when the status is won or lost; in an idle
  or playing state reading the cell throws a TypeError, with the state unchanged.
\<close>

theorem revealCell_out_of_range:
  assumes "ms_reachable s"
    and "row < 0 \<or> int (rows (ms_config s)) \<le> row \<or> col < 0 \<or> int (cols (ms_config s)) \<le> col"
  shows "revealCell (Suc fuel) rnd now row col s =
     (if ms_status s = M_won \<or> ms_status s = M_lost then Some (Inr False, s)
      else Some (Inl TypeError, s))"
proof -
  have wf: "ms_wf s" using assms(1) by (rule ms_reachable_wf)
  have "\<not> in_board (rows (ms_config s)) (cols (ms_config s)) (row, col)"
    using assms(2) by (auto simp: in_board_def)
  then have "board_cell (ms_board s) row col = None"
    using board_cell_wf [OF wf [unfolded ms_wf_def]] by simp
  then show ?thesis by simp
qed

text \<open>
  The claim as stated fails: on the new beginner game (9 by 9, idle), \<open>revealCell(-1, 0)\<close>
  throws a TypeError.
\<close>

theorem revealCell_out_of_range_counterexample:
  "ms_reachable (createMineState DIFFICULTY_beginner) \<and>
   revealCell 1 (\<lambda>i. 0) 0 (- 1) 0 (createMineState DIFFICULTY_beginner)
     = Some (Inl TypeError, createMineState DIFFICULTY_beginner)"
  by (simp add: board_cell_def mreach_new) (simp add: createMineState_def)

text \<open>The amended claim on the new beginner game, at row 9 (the rows are 0 to 8).\<close>

theorem revealCell_out_of_range_witness:
  "ms_reachable (createMineState DIFFICULTY_beginner) \<and>
   int (rows (ms_config (createMineState DIFFICULTY_beginner))) \<le> 9 \<and>
   revealCell (Suc 0) (\<lambda>i. 0) 0 9 4 (createMineState DIFFICULTY_beginner)
     = Some (Inl TypeError, createMineState DIFFICULTY_beginner)"
proof -
  have re: "ms_reachable (createMineState DIFFICULTY_beginner)" by (rule mreach_new)
  have r: "int (rows (ms_config (createMineState DIFFICULTY_beginner))) \<le> 9"
    by (simp add: createMineState_def DIFFICULTY_beginner_def)
  have st: "ms_status (createMineState DIFFICULTY_beginner) = M_idle"
    by (simp add: createMineState_def)
  show ?thesis
    using revealCell_out_of_range [OF re, of 9 4 0 "\<lambda>i. 0" 0] re r st by simp
qed


subsection \<open>The cells of the board and the shuffle\<close>

lemma all_cells_Suc:
  "all_cells (Suc rs) cs = all_cells rs cs @ map (\<lambda>col. (int rs, int col)) [0..<cs]"
  by (simp add: all_cells_def)

lemma set_all_cells: "set (all_cells rs cs) = {p. in_board rs cs p}"
proof (induction rs)
  case 0
  show ?case by (auto simp: all_cells_def in_board_def)
next
  case (Suc rs)
  have "set (map (\<lambda>col. (int rs, int col)) [0..<cs]) = {p. fst p = int rs \<and> 0 \<le> snd p \<and> snd p < int cs}"
  proof (intro set_eqI iffI)
    fix p assume "p \<in> {p. fst p = int rs \<and> 0 \<le> snd p \<and> snd p < int cs}"
    then have "p = (int rs, int (nat (snd p)))" "nat (snd p) < cs"
      by (auto simp: prod_eq_iff)
    then show "p \<in> set (map (\<lambda>col. (int rs, int col)) [0..<cs])"
      by (metis (mono_tags, lifting) atLeast0LessThan imageI image_set lessThan_iff set_upt)
  qed auto
  then show ?case
    unfolding all_cells_Suc using Suc by (auto simp: in_board_def)
qed

lemma distinct_all_cells: "distinct (all_cells rs cs)"
proof (induction rs)
  case 0
  show ?case by (simp add: all_cells_def)
next
  case (Suc rs)
  have d: "distinct (map (\<lambda>col. (int rs, int col)) [0..<cs])"
    by (simp add: distinct_map inj_on_def)
  have "set (all_cells rs cs) \<inter> set (map (\<lambda>col. (int rs, int col)) [0..<cs]) = {}"
    unfolding set_all_cells by (auto simp: in_board_def)
  then show ?case unfolding all_cells_Suc using Suc d by simp
qed

lemma shuffle_loop_props:
  "k < length xs \<Longrightarrow>
   set (shuffle_loop rnd k xs) = set xs \<and> distinct (shuffle_loop rnd k xs) = distinct xs \<and>
   length (shuffle_loop rnd k xs) = length xs"
proof (induction k arbitrary: xs)
  case 0
  show ?case by simp
next
  case (Suc k)
  let ?j = "rnd (Suc k) mod (Suc k + 1)"
  let ?ys = "xs[Suc k := xs ! ?j, ?j := xs ! Suc k]"
  have j: "?j < length xs" using Suc.prems by (simp add: less_le_trans [OF mod_less_divisor])
  have k: "k < length ?ys" using Suc.prems by simp
  have "set ?ys = set xs" "distinct ?ys = distinct xs" "length ?ys = length xs"
    using Suc.prems j by (simp_all add: set_swap)
  then show ?case using Suc.IH [OF k] by (simp add: Let_def)
qed

lemma shuffleArray_props:
  "set (shuffleArray rnd xs) = set xs" "distinct (shuffleArray rnd xs) = distinct xs"
  "length (shuffleArray rnd xs) = length xs"
  using shuffle_loop_props [of "length xs - 1" xs rnd]
  by (cases "xs = []"; simp add: shuffleArray_def)+

lemma availableCells_props:
  "distinct (availableCells config r c)"
  "set (availableCells config r c) =
     {p. in_board (rows config) (cols config) p \<and> \<not> isExcluded r c p}"
  by (auto simp: availableCells_def distinct_all_cells set_all_cells)

text \<open>The positions that \<open>placeMines\<close> chooses.\<close>

lemma minePositions_props:
  fixes config :: MineConfig and rnd :: "nat \<Rightarrow> nat" and r c m :: int
  defines "mp \<equiv> slice0 (shuffleArray rnd (availableCells config r c)) m"
  assumes "0 \<le> m"
  shows "distinct mp" 
    and "set mp \<subseteq> {p. in_board (rows config) (cols config) p \<and> \<not> isExcluded r c p}"
    and "length mp = min (nat m) (length (availableCells config r c))"
proof -
  have mp: "mp = take (nat m) (shuffleArray rnd (availableCells config r c))"
    using assms(2) by (simp add: mp_def slice0_def)
  show "distinct mp" unfolding mp by (simp add: shuffleArray_props availableCells_props)
  show "set mp \<subseteq> {p. in_board (rows config) (cols config) p \<and> \<not> isExcluded r c p}"
    unfolding mp using set_take_subset [of "nat m" "shuffleArray rnd (availableCells config r c)"]
    by (simp add: shuffleArray_props availableCells_props)
  show "length mp = min (nat m) (length (availableCells config r c))"
    unfolding mp by (simp add: shuffleArray_props min.commute)
qed

subsection \<open>Where the mines are after \<open>placeMines\<close>\<close>

lemma fold_mines_cell:
  assumes "mine_board_wf rs cs b" and "\<forall>p\<in>set mp. in_board rs cs p"
  shows "board_cell (fold (\<lambda>p b. upd_mine_cell b (fst p) (snd p) (\<lambda>c. c\<lparr>isMine := True\<rparr>)) mp b) r c =
     map_option (\<lambda>cell. if (r, c) \<in> set mp then cell\<lparr>isMine := True\<rparr> else cell) (board_cell b r c)"
  using assms
proof (induction mp arbitrary: b)
  case Nil
  show ?case by (simp add: option.map_ident)
next
  case (Cons p mp)
  let ?f = "\<lambda>c. c\<lparr>isMine := True\<rparr>"
  let ?b1 = "upd_mine_cell b (fst p) (snd p) ?f"
  have inb: "in_board rs cs (fst p, snd p)" using Cons.prems(2) by simp
  have wf1: "mine_board_wf rs cs ?b1" using Cons.prems(1) by (simp add: upd_mine_cell_wf)
  have ih: "board_cell (fold (\<lambda>p b. upd_mine_cell b (fst p) (snd p) ?f) mp ?b1) r c =
     map_option (\<lambda>cell. if (r, c) \<in> set mp then ?f cell else cell) (board_cell ?b1 r c)"
    using Cons.IH [OF wf1] Cons.prems(2) by simp
  have b1: "board_cell ?b1 r c =
     (if r = fst p \<and> c = snd p then Some (?f (b ! nat (fst p) ! nat (snd p))) else board_cell b r c)"
    by (rule board_cell_upd [OF Cons.prems(1) inb])
  have here: "board_cell b (fst p) (snd p) = Some (b ! nat (fst p) ! nat (snd p))"
    using board_cell_wf [OF Cons.prems(1), of "fst p" "snd p"] inb by simp
  show ?case
  proof (cases "r = fst p \<and> c = snd p")
    case True
    then have "(r, c) = p" by (simp add: prod_eq_iff)
    then show ?thesis using True here ih b1 by simp
  next
    case False
    then have "(r, c) \<noteq> p" by (auto simp: prod_eq_iff)
    then show ?thesis using False ih b1 by auto
  qed
qed

lemma fold_mines_is_mine:
  assumes "mine_board_wf rs cs b" and "\<forall>p\<in>set mp. in_board rs cs p"
  shows "is_mine_at (fold (\<lambda>p b. upd_mine_cell b (fst p) (snd p) (\<lambda>c. c\<lparr>isMine := True\<rparr>)) mp b) q
     = (q \<in> set mp \<or> is_mine_at b q)"
proof -
  have "board_cell b (fst q) (snd q) \<noteq> None" if "q \<in> set mp"
    using that assms(2) board_cell_wf [OF assms(1), of "fst q" "snd q"] by auto
  then show ?thesis
    unfolding is_mine_at_def fold_mines_cell [OF assms]
    by (cases "board_cell b (fst q) (snd q)") auto
qed

lemma mine_count_card:
  "mine_count rs cs b = card {p. in_board rs cs p \<and> is_mine_at b p}"
proof -
  have "{p. is_mine_at b p} \<inter> set (all_cells rs cs) = {p. in_board rs cs p \<and> is_mine_at b p}"
    by (auto simp: set_all_cells)
  then show ?thesis
    unfolding mine_count_def using distinct_length_filter [OF distinct_all_cells, of "is_mine_at b" rs cs]
    by simp
qed


subsection \<open>The first reveal\<close>

lemma cells_rel_mines_kept:
  "cells_rel (cell_step True) b b' \<Longrightarrow> mines_kept b b'"
  unfolding mines_kept_def by (erule cells_rel_mono) (simp add: cell_step_def)

lemma placeMines_is_mine:
  assumes "ms_wf s" and "0 \<le> mines (ms_config s)"
  shows "is_mine_at (ms_board (placeMines rnd r c s)) q =
     (q \<in> set (slice0 (shuffleArray rnd (availableCells (ms_config s) r c)) (mines (ms_config s)))
      \<or> is_mine_at (ms_board s) q)"
proof -
  let ?mp = "slice0 (shuffleArray rnd (availableCells (ms_config s) r c)) (mines (ms_config s))"
  have inb: "\<forall>p\<in>set ?mp. in_board (rows (ms_config s)) (cols (ms_config s)) p"
    using minePositions_props(2) [OF assms(2), of rnd "ms_config s" r c] by auto
  show ?thesis
    using fold_mines_is_mine [OF assms(1) [unfolded ms_wf_def] inb]
    by (simp add: placeMines_def Let_def)
qed

lemma calculateNeighborMines_mines:
  "mines_kept (ms_board s) (ms_board (calculateNeighborMines s))"
  unfolding mines_kept_def by (rule calculateNeighborMines_board(2)) simp_all

lemma initializeGame_is_mine:
  assumes "ms_status s = M_idle" and "ms_wf s" and "0 \<le> mines (ms_config s)"
  shows "is_mine_at (ms_board (initializeGame rnd now r c s)) q =
     (q \<in> set (slice0 (shuffleArray rnd (availableCells (ms_config s) r c)) (mines (ms_config s)))
      \<or> is_mine_at (ms_board s) q)"
  using assms(1) mines_kept_is_mine_at [OF calculateNeighborMines_mines, of "placeMines rnd r c s" q]
    placeMines_is_mine [OF assms(2,3), of rnd r c q]
  by (simp add: initializeGame_def)

lemma initializeGame_cstate:
  assumes "board_cell (ms_board s) row col = Some c"
  shows "\<exists>c'. board_cell (ms_board (initializeGame rnd now r0 c0 s)) row col = Some c'
           \<and> cstate c' = cstate c"
proof -
  have "cells_rel (\<lambda>x y. cstate y = cstate x) (ms_board s)
      (ms_board (initializeGame rnd now r0 c0 s))"
    by (rule initializeGame_board) simp_all
  from cells_rel_board_cell [OF this, of row col] assms show ?thesis
    by (auto elim: option.rel_cases)
qed

text \<open>A reveal of a hidden cell in an idle state is the reveal in the initialised state.\<close>

lemma revealCell_idle:
  assumes "ms_status s = M_idle" and "board_cell (ms_board s) row col = Some c"
    and "cstate c = Hidden"
  shows "revealCell (Suc fuel) rnd now row col s
     = revealCell (Suc fuel) rnd now row col (initializeGame rnd now row col s)"
proof -
  let ?s1 = "initializeGame rnd now row col s"
  obtain c' where c': "board_cell (ms_board ?s1) row col = Some c'" "cstate c' = Hidden"
    using initializeGame_cstate [OF assms(2), of rnd now row col] assms(3) by auto
  have st: "ms_status ?s1 = M_playing" using assms(1) by (simp add: initializeGame_status)
  show ?thesis
    using assms c' st by (simp add: Let_def)
qed

lemma revealCell_keeps_mines:
  assumes "ms_status s \<noteq> M_idle" and "revealCell fuel rnd now row col s = Some (r, s')"
  shows "mines_kept (ms_board s) (ms_board s')" and "ms_config s' = ms_config s"
    and "ms_status s' \<noteq> M_idle"
  using revealCell_step [OF assms(2)] assms(1)
  by (simp_all add: state_step_def cells_rel_mines_kept)

lemma revealCell_still_idle:
  assumes "revealCell fuel rnd now row col s = Some (r, s')" and "ms_status s' = M_idle"
  shows "s' = s"
proof (cases fuel)
  case 0
  then show ?thesis using assms by simp
next
  case (Suc f)
  have idle: "ms_status s = M_idle"
    using revealCell_step [OF assms(1)] assms(2) by (auto simp: state_step_def)
  show ?thesis
  proof (cases "board_cell (ms_board s) row col")
    case None
    then show ?thesis using assms(1) idle Suc by simp
  next
    case (Some c)
    show ?thesis
    proof (cases "cstate c = Hidden")
      case False
      then show ?thesis using assms(1) idle Suc Some by simp
    next
      case True
      let ?s1 = "initializeGame rnd now row col s"
      have "revealCell fuel rnd now row col ?s1 = Some (r, s')"
        using assms(1) revealCell_idle [OF idle Some True, of f rnd now] Suc by simp
      moreover have "ms_status ?s1 \<noteq> M_idle" using idle by (simp add: initializeGame_status)
      ultimately have "ms_status s' \<noteq> M_idle" by (rule revealCell_keeps_mines(3) [rotated])
      then show ?thesis using assms(2) by simp
    qed
  qed
qed

lemma toggleFlag_mines:
  "mines_kept (ms_board s) (ms_board (snd (toggleFlag row col s)))"
  "ms_status (snd (toggleFlag row col s)) = ms_status s"
  unfolding mines_kept_def
  by (simp_all add: toggleFlag_def cells_rel_upd cells_rel_refl split: option.splits)

lemma ms_reachable_idle:
  "ms_reachable s \<Longrightarrow> ms_status s = M_idle \<Longrightarrow> \<not> is_mine_at (ms_board s) q"
proof (induction rule: ms_reachable.induct)
  case (mreach_new config)
  show ?case
    by (auto simp: is_mine_at_def createMineState_def createMineBoard_def board_cell_def
        split: option.splits)
next
  case (mreach_reveal s fuel rnd now row col r s')
  then show ?case using revealCell_still_idle by blast
next
  case (mreach_flag s row col)
  then show ?case using toggleFlag_mines [where s = s and row = row and col = col]
    by (simp add: mines_kept_is_mine_at)
qed


subsection \<open>Every reveal returns\<close>

lemma length_all_cells: "length (all_cells rs cs) = rs * cs"
  by (induction rs) (simp_all add: all_cells_Suc, simp add: all_cells_def)

lemma hidden_cells_board:
  assumes "ms_wf s"
  shows "hidden_cells s \<subseteq> set (all_cells (rows (ms_config s)) (cols (ms_config s)))"
  using board_cell_wf [OF assms [unfolded ms_wf_def]]
  by (auto simp: hidden_cells_def is_hidden_def set_all_cells split: option.splits if_splits)

lemma hidden_cells_finite: "ms_wf s \<Longrightarrow> finite (hidden_cells s)"
  using hidden_cells_board finite_subset by blast

lemma hidden_cells_card:
  assumes "ms_wf s"
  shows "card (hidden_cells s) \<le> rows (ms_config s) * cols (ms_config s)"
proof -
  have "card (hidden_cells s) \<le> card (set (all_cells (rows (ms_config s)) (cols (ms_config s))))"
    by (rule card_mono [OF _ hidden_cells_board [OF assms]]) simp
  then show ?thesis
    using distinct_card [OF distinct_all_cells, of "rows (ms_config s)" "cols (ms_config s)"]
    by (simp add: length_all_cells)
qed

lemma cells_rel_hidden:
  assumes "cells_rel R b b'" and "\<And>x y. R x y \<Longrightarrow> cstate y = Hidden \<Longrightarrow> cstate x = Hidden"
  shows "is_hidden b' p \<Longrightarrow> is_hidden b p"
  using cells_rel_board_cell [OF assms(1), of "fst p" "snd p"] assms(2)
  by (auto simp: is_hidden_def elim!: option.rel_cases)

lemma state_step_hidden: "state_step s s' \<Longrightarrow> hidden_cells s' \<subseteq> hidden_cells s"
  unfolding hidden_cells_def state_step_def
  by (auto elim!: cells_rel_hidden simp: cell_step_def)

lemma initializeGame_hidden: "hidden_cells (initializeGame rnd now r c s) = hidden_cells s"
proof -
  have a: "cells_rel (\<lambda>x y. cstate y = cstate x) (ms_board s)
      (ms_board (initializeGame rnd now r c s))"
    by (rule initializeGame_board) simp_all
  have "is_hidden (ms_board (initializeGame rnd now r c s)) p = is_hidden (ms_board s) p" for p
    using cells_rel_board_cell [OF a, of "fst p" "snd p"]
    by (auto simp: is_hidden_def elim!: option.rel_cases)
  then show ?thesis by (simp add: hidden_cells_def)
qed

lemma initializeGame_wf: "ms_wf (initializeGame rnd now r c s) = ms_wf s"
  by (rule state_step_wf [OF state_step_init])

text \<open>The state after the cell is marked as revealed.\<close>

lemma reveal_upd_hidden:
  assumes "ms_wf s" and "board_cell (ms_board s) row col = Some c"
  shows "hidden_cells (s\<lparr>ms_board := upd_mine_cell (ms_board s) row col (\<lambda>c. c\<lparr>cstate := Revealed\<rparr>),
                          revealedCells := revealedCells s + 1\<rparr>) = hidden_cells s - {(row, col)}"
proof -
  have inb: "in_board (rows (ms_config s)) (cols (ms_config s)) (row, col)"
    using assms board_cell_wf [OF assms(1) [unfolded ms_wf_def], of row col]
    by (auto split: if_splits)
  show ?thesis
    unfolding hidden_cells_def is_hidden_def
    by (auto simp: board_cell_upd [OF assms(1) [unfolded ms_wf_def] inb] split: if_splits)
qed

lemma revealNeighbors_returns:
  assumes cell: "\<And>row col s. ms_wf s \<Longrightarrow> card (hidden_cells s) < fuel
      \<Longrightarrow> \<exists>r s'. revealCell fuel rnd now row col s = Some (r, s')"
  shows "ms_wf s \<Longrightarrow> card (hidden_cells s) < fuel
      \<Longrightarrow> \<exists>e s'. revealNeighbors fuel rnd now ps s = Some (e, s')"
proof (induction ps arbitrary: s)
  case Nil
  show ?case by simp
next
  case (Cons p rest)
  show ?case
  proof (cases "board_cell (ms_board s) (fst p) (snd p)")
    case None
    then show ?thesis by simp
  next
    case (Some nb)
    show ?thesis
    proof (cases "cstate nb = Hidden")
      case False
      then show ?thesis using Some Cons.IH [OF Cons.prems] by simp
    next
      case True
      obtain r s1 where run: "revealCell fuel rnd now (fst p) (snd p) s = Some (r, s1)"
        using cell [OF Cons.prems] by blast
      have step: "state_step s s1" using run by (rule revealCell_step)
      have wf1: "ms_wf s1" using Cons.prems(1) state_step_wf [OF step] by simp
      have "card (hidden_cells s1) \<le> card (hidden_cells s)"
        by (rule card_mono [OF hidden_cells_finite [OF Cons.prems(1)] state_step_hidden [OF step]])
      then have c1: "card (hidden_cells s1) < fuel" using Cons.prems(2) by simp
      show ?thesis
        using Some True run Cons.IH [OF wf1 c1] by (cases r) simp_all
    qed
  qed
qed

lemma revealCell_returns_card:
  "ms_wf s \<Longrightarrow> card (hidden_cells s) < fuel
     \<Longrightarrow> \<exists>r s'. revealCell fuel rnd now row col s = Some (r, s')"
proof (induction fuel arbitrary: row col s)
  case 0
  then show ?case by simp
next
  case (Suc fuel)
  show ?case
  proof (cases "ms_status s = M_won \<or> ms_status s = M_lost")
    case True
    then show ?thesis by auto
  next
    case False
    show ?thesis
    proof (cases "board_cell (ms_board s) row col")
      case None
      then show ?thesis using False by simp
    next
      case (Some cell0)
      show ?thesis
      proof (cases "cstate cell0 = Hidden")
        case nh: False
        then show ?thesis using False Some by simp
      next
        case True
        define s1 where "s1 = (if ms_status s = M_idle then initializeGame rnd now row col s else s)"
        define s2 where "s2 = s1\<lparr>ms_board := upd_mine_cell (ms_board s1) row col
                                           (\<lambda>c. c\<lparr>cstate := Revealed\<rparr>),
                            revealedCells := revealedCells s1 + 1\<rparr>"
        have s1: "s1 = initializeGame rnd now row col s"
          by (simp add: s1_def initializeGame_not_idle)
        have wf1: "ms_wf s1" using Suc.prems(1) by (simp add: s1 initializeGame_wf)
        have h1: "hidden_cells s1 = hidden_cells s" by (simp add: s1 initializeGame_hidden)
        obtain c1 where c1: "board_cell (ms_board s1) row col = Some c1" "cstate c1 = Hidden"
          using initializeGame_cstate [OF Some, of rnd now row col] True by (auto simp: s1)
        have wf2: "ms_wf s2"
          using wf1 by (simp add: s2_def ms_wf_def upd_mine_cell_wf)
        have h2: "hidden_cells s2 = hidden_cells s - {(row, col)}"
          unfolding s2_def reveal_upd_hidden [OF wf1 c1(1)] h1 ..
        have "(row, col) \<in> hidden_cells s"
          using Some True by (simp add: hidden_cells_def is_hidden_def)
        then have "card (hidden_cells s2) < card (hidden_cells s)"
          unfolding h2 using hidden_cells_finite [OF Suc.prems(1)]
          by (intro card_Diff1_less)
        then have c2: "card (hidden_cells s2) < fuel" using Suc.prems(2) by simp
        obtain e s3 where nbs:
          "revealNeighbors fuel rnd now (neighbor_coords (ms_config s2) row col) s2 = Some (e, s3)"
          using revealNeighbors_returns [where fuel = fuel and rnd = rnd and now = now, OF Suc.IH wf2 c2]
          by blast
        have eq: "revealCell (Suc fuel) rnd now row col s =
          (if isMine (ms_board s2 ! nat row ! nat col)
           then Some (Inr True, revealAllMines (s2\<lparr>ms_status := M_lost, ms_endTime := Some now\<rparr>))
           else if neighborMines (ms_board s2 ! nat row ! nat col) = 0
           then (case revealNeighbors fuel rnd now (neighbor_coords (ms_config s2) row col) s2 of
                   None \<Rightarrow> None
                 | Some (Some e, s3) \<Rightarrow> Some (Inl e, s3)
                 | Some (None, s3) \<Rightarrow> Some (Inr True, checkWinCondition now s3))
           else Some (Inr True, checkWinCondition now s2))"
          using False Some True by (simp add: Let_def s1_def s2_def)
        show ?thesis unfolding eq nbs by (cases e) simp_all
      qed
    qed
  qed
qed

lemma revealCell_returns:
  assumes "ms_wf s" and "rows (ms_config s) * cols (ms_config s) < fuel"
  shows "\<exists>r s'. revealCell fuel rnd now row col s = Some (r, s')"
  using revealCell_returns_card [OF assms(1), of fuel] hidden_cells_card [OF assms(1)] assms(2)
  by simp


text \<open>
  Claim C2, as the code behaves. For a reachable idle state whose configuration has a mine
  count that is not negative, the first reveal (of a hidden cell of the board) places
  \<open>min(mines, number of cells outside the 3 by 3 zone around the revealed cell)\<close> mines:
  \<open>slice(0, mines)\<close> returns fewer positions than \<open>mines\<close> when there are not that many
  cells outside the zone. No cell of the zone is a mine. The reveal returns whenever the
  bound on the depth of the calls is above the number of cells.
\<close>

theorem first_reveal_mines:
  assumes "ms_reachable s" and "ms_status s = M_idle" and "0 \<le> mines (ms_config s)"
    and "board_cell (ms_board s) row col = Some c" and "cstate c = Hidden"
    and "rows (ms_config s) * cols (ms_config s) < fuel"
  shows "\<exists>r s'. revealCell fuel rnd now row col s = Some (r, s') \<and>
         mine_count (rows (ms_config s)) (cols (ms_config s)) (ms_board s')
           = min (nat (mines (ms_config s))) (length (availableCells (ms_config s) row col)) \<and>
         (\<forall>p. isExcluded row col p \<longrightarrow> \<not> is_mine_at (ms_board s') p)"
proof -
  let ?cfg = "ms_config s"
  let ?s1 = "initializeGame rnd now row col s"
  let ?mp = "slice0 (shuffleArray rnd (availableCells ?cfg row col)) (mines ?cfg)"
  have wf: "ms_wf s" using assms(1) by (rule ms_reachable_wf)
  obtain r s' where ret: "revealCell fuel rnd now row col s = Some (r, s')"
    using revealCell_returns [OF wf assms(6)] by blast
  obtain f where f: "fuel = Suc f" using assms(6) by (cases fuel) simp_all
  have run: "revealCell fuel rnd now row col ?s1 = Some (r, s')"
    using ret revealCell_idle [OF assms(2,4,5), of f rnd now] f by simp
  have st: "ms_status ?s1 \<noteq> M_idle" using assms(2) by (simp add: initializeGame_status)
  have kept: "mines_kept (ms_board ?s1) (ms_board s')"
    using st run by (rule revealCell_keeps_mines(1))
  have mine: "is_mine_at (ms_board s') q = (q \<in> set ?mp)" for q
    using mines_kept_is_mine_at [OF kept, of q] initializeGame_is_mine [OF assms(2) wf assms(3)]
      ms_reachable_idle [OF assms(1,2)]
    by simp
  have sub: "set ?mp \<subseteq> {p. in_board (rows ?cfg) (cols ?cfg) p \<and> \<not> isExcluded row col p}"
    by (rule minePositions_props(2) [OF assms(3)])
  have "{p. in_board (rows ?cfg) (cols ?cfg) p \<and> is_mine_at (ms_board s') p} = set ?mp"
    using sub by (auto simp: mine)
  then have "mine_count (rows ?cfg) (cols ?cfg) (ms_board s') = length ?mp"
    unfolding mine_count_card
    using distinct_card [OF minePositions_props(1) [OF assms(3), of rnd ?cfg row col]] by simp
  then have count: "mine_count (rows ?cfg) (cols ?cfg) (ms_board s')
      = min (nat (mines ?cfg)) (length (availableCells ?cfg row col))"
    by (simp add: minePositions_props(3) [OF assms(3)])
  have zone: "\<not> is_mine_at (ms_board s') p" if "isExcluded row col p" for p
    using that sub by (auto simp: mine)
  show ?thesis using ret count zone by blast
qed

lemma custom_facts:
  "(case revealCell 26 (\<lambda>i. 0) 0 2 2 (setCustomConfig 5 5 20) of None \<Rightarrow> False
    | Some (r, s') \<Rightarrow> r = Inr True \<and> ms_status s' = M_won \<and> revealedCells s' = 5 \<and>
        mines (ms_config s') = 20 \<and> remainingMines s' = 20 \<and>
        map (map cstate) (ms_board s')
          = [[Hidden, Hidden, Hidden, Hidden, Hidden],
             [Hidden, Revealed, Revealed, Revealed, Hidden],
             [Hidden, Revealed, Revealed, Hidden, Hidden],
             [Hidden, Hidden, Hidden, Hidden, Hidden],
             [Hidden, Hidden, Hidden, Hidden, Hidden]])"
  by code_simp

lemma custom_start_facts:
  "length (availableCells (ms_config (setCustomConfig 5 5 20)) 2 2) = 16 \<and>
   (case board_cell (ms_board (setCustomConfig 5 5 20)) 2 2 of
      None \<Rightarrow> False | Some c \<Rightarrow> cstate c = Hidden)"
  by code_simp

text \<open>
  The custom game \<open>setCustomConfig(5, 5, 20)\<close> (20 is the 80 percent limit of the 25
  cells), first reveal at the centre (2,2): 16 cells lie outside the zone, so 16 mines are
  placed while the configuration says 20. The win test, which counts 25 - 20 = 5 safe
  cells, fires after the fifth cell of the opening, with 4 cells of the zone still hidden.
\<close>

theorem first_reveal_mines_witness:
  "ms_reachable (setCustomConfig 5 5 20) \<and> ms_status (setCustomConfig 5 5 20) = M_idle \<and>
   ms_config (setCustomConfig 5 5 20) = \<lparr>rows = 5, cols = 5, mines = 20, difficulty = Custom\<rparr> \<and>
   (\<exists>r s'. revealCell 26 (\<lambda>i. 0) 0 2 2 (setCustomConfig 5 5 20) = Some (r, s') \<and>
      mine_count 5 5 (ms_board s') = 16 \<and> mines (ms_config s') = 20 \<and>
      \<not> is_mine_at (ms_board s') (1, 1) \<and> ms_status s' = M_won \<and> revealedCells s' = 5)"
proof -
  let ?s = "setCustomConfig 5 5 20"
  have cfg: "ms_config ?s = \<lparr>rows = 5, cols = 5, mines = 20, difficulty = Custom\<rparr>"
    by (simp add: setCustomConfig_def createMineState_def)
  have re: "ms_reachable ?s" unfolding setCustomConfig_def Let_def by (rule mreach_new)
  have idle: "ms_status ?s = M_idle" by (simp add: setCustomConfig_def createMineState_def)
  have nn: "0 \<le> mines (ms_config ?s)" by (simp add: cfg)
  obtain c where c: "board_cell (ms_board ?s) 2 2 = Some c" "cstate c = Hidden"
    using custom_start_facts by (auto split: option.splits)
  obtain r s' where run: "revealCell 26 (\<lambda>i. 0) 0 2 2 ?s = Some (r, s')"
    and res: "mines (ms_config s') = 20" "ms_status s' = M_won" "revealedCells s' = 5"
    using custom_facts by (auto split: option.splits)
  have av: "length (availableCells (ms_config ?s) 2 2) = 16" using custom_start_facts by simp
  have zone: "isExcluded 2 2 (1, 1)" by (simp add: isExcluded_def)
  have "mine_count 5 5 (ms_board s') = 16 \<and> \<not> is_mine_at (ms_board s') (1, 1)"
    using first_reveal_mines [OF re idle nn c, of 26 "\<lambda>i. 0" 0] run zone av by (simp add: cfg)
  then show ?thesis using re idle cfg run res by simp
qed

end
